theory Spec2Isabelle
  imports Main "HOL-Library.Monad_Syntax" "HOL-Library.Sublist" "HOL-Library.Word"
begin

section \<open>The tokenline engine of \<^verbatim>\<open>tokenline.c\<close>\<close>

text \<open>
  The engine is one C aggregate (\<^verbatim>\<open>t_tokenline\<close>) that every function receives by
  pointer and mutates.  The model passes the aggregate explicitly and returns the updated
  one.  A C \<^verbatim>\<open>char\<close> is a \<^typ>\<open>char\<close>, a C \<^verbatim>\<open>int\<close> is an \<^typ>\<open>int\<close> (no index or length
  of the program comes near the limits of a machine \<^verbatim>\<open>int\<close>), an array is a list whose
  length is the declared capacity.

  C gives no result to an access outside an array, and a loop may fail to return.  Every
  operation of the model therefore returns an \<^typ>\<open>'a option\<close>: \<open>None\<close> says that the C
  function has no result to observe at this input, either because it reads or writes
  outside an array or a NULL pointer, or because one of its loops does not return.

  The header \<^verbatim>\<open>tokenline.h\<close> is not part of the source tree.  The constants it defines
  (\<^verbatim>\<open>TL_MAX_LINE_LEN\<close>, \<^verbatim>\<open>TL_MAX_ESCAPE_LEN\<close>, \<^verbatim>\<open>TL_MAX_WORDS\<close>, \<^verbatim>\<open>TL_MAX_HISTORY_SIZE\<close>, the
  values of the \<^verbatim>\<open>TARG_\<close> enumerators, the capacities of the parse result) are parameters
  of the model, collected in the record \<open>config\<close>.
\<close>

subsection \<open>Bytes, arrays and C strings\<close>

abbreviation NUL :: char where "NUL \<equiv> CHR 0x00"
abbreviation SPACE :: char where "SPACE \<equiv> CHR 0x20"
abbreviation DQUOTE :: char where "DQUOTE \<equiv> CHR 0x22"

text \<open>\<open>rd xs i\<close> is the C expression \<^verbatim>\<open>xs[i]\<close> read, \<open>wr xs i v\<close> the assignment \<^verbatim>\<open>xs[i] = v\<close>.\<close>

definition rd :: "'a list \<Rightarrow> int \<Rightarrow> 'a option" where
  "rd xs i = (if 0 \<le> i \<and> i < int (length xs) then Some (xs ! nat i) else None)"

definition wr :: "'a list \<Rightarrow> int \<Rightarrow> 'a \<Rightarrow> 'a list option" where
  "wr xs i v = (if 0 \<le> i \<and> i < int (length xs) then Some (xs[nat i := v]) else None)"

text \<open>
  \<open>cstr xs off\<close> is the C string that starts at \<^verbatim>\<open>xs + off\<close>: the bytes up to the first
  NUL, which has to lie inside the array.  It is what \<^verbatim>\<open>strlen\<close>, \<^verbatim>\<open>strcmp\<close> and the print
  sink read from such a pointer.
\<close>

definition cstr :: "char list \<Rightarrow> int \<Rightarrow> string option" where
  "cstr xs off =
     (if 0 \<le> off \<and> off \<le> int (length xs) \<and> NUL \<in> set (drop (nat off) xs)
      then Some (takeWhile (\<lambda>c. c \<noteq> NUL) (drop (nat off) xs)) else None)"

text \<open>\<open>slice xs off n\<close> reads \<open>n\<close> bytes at \<^verbatim>\<open>xs + off\<close>; \<open>blit xs off src\<close> stores the bytes
  \<open>src\<close> at \<^verbatim>\<open>xs + off\<close>.  Together they are \<^verbatim>\<open>memcpy\<close> and \<^verbatim>\<open>memmove\<close>.\<close>

definition slice :: "'a list \<Rightarrow> int \<Rightarrow> int \<Rightarrow> 'a list option" where
  "slice xs off n =
     (if 0 \<le> off \<and> 0 \<le> n \<and> off + n \<le> int (length xs)
      then Some (take (nat n) (drop (nat off) xs)) else None)"

definition blit :: "'a list \<Rightarrow> int \<Rightarrow> 'a list \<Rightarrow> 'a list option" where
  "blit xs off src =
     (if 0 \<le> off \<and> off + int (length src) \<le> int (length xs)
      then Some (take (nat off) xs @ src @ drop (nat off + length src) xs) else None)"

subsection \<open>Grammar, parse result and engine state\<close>

datatype argtype = TARG_NONE | TARG_INT | TARG_FLOAT | TARG_STRING | TARG_TOKEN | TARG_HELP

text \<open>A token list is the array up to its sentinel entry, whose token is 0; a pointer to
  a token list is an option, \<open>None\<close> being NULL.\<close>

datatype t_token =
  Token (token: int) (arg_type: argtype) (subtokens: "t_token list option")
        (help_str: "string option")

record t_tokenline_parsed =
  tokens :: "int list"
  pbuf :: "char list"
  last_token_entry :: "t_token option"

record config =
  TL_MAX_LINE_LEN :: int
  TL_MAX_ESCAPE_LEN :: int
  TL_MAX_WORDS :: int
  TL_MAX_HISTORY_SIZE :: int
  parsed_tokens_cap :: nat
  parsed_buf_cap :: nat
  targ :: "argtype \<Rightarrow> int"
  LONG_MAX :: int
  int_repr :: "int \<Rightarrow> char list"
  strtof_bytes :: "string \<Rightarrow> char list \<times> string"

text \<open>
  \<open>targ\<close> gives the integer value of each \<^verbatim>\<open>TARG_\<close> enumerator.  \<open>LONG_MAX\<close> is the largest
  \<^verbatim>\<open>long\<close> of the host, \<open>int_repr v\<close> the \<^verbatim>\<open>sizeof(int)\<close> bytes that represent, on the host,
  the \<^verbatim>\<open>int\<close> that the \<^verbatim>\<open>long\<close> value \<open>v\<close> converts to.  \<open>strtof_bytes s\<close> stands for \<^verbatim>\<open>strtof\<close>:
  the bytes that represent the \<^verbatim>\<open>float\<close> it reads from \<open>s\<close>, and the suffix it leaves unread.
\<close>

text \<open>
  The print sink and the parse callback belong to the host.  The model records what they
  receive: \<open>printed\<close> is the list of the strings handed to \<^verbatim>\<open>tl->print\<close>, in order, and
  \<open>calls\<close> the list of the parse results handed to \<^verbatim>\<open>tl->callback\<close>; \<open>callback\<close> says
  whether a callback is registered.
\<close>

record t_tokenline =
  token_levels :: "t_token list option list"
  token_level :: int
  token_dict :: "int \<Rightarrow> string"
  prompt :: string
  callback :: bool
  buf :: "char list"
  buf_len :: int
  escape :: "char list"
  escape_len :: int
  pos :: int
  hist_buf :: "char list"
  hist_step :: int
  hist_begin :: int
  hist_end :: int
  parsed :: t_tokenline_parsed
  printed :: "string list"
  calls :: "t_tokenline_parsed list"

definition print :: "string \<Rightarrow> t_tokenline \<Rightarrow> t_tokenline" where
  "print s e = e\<lparr>printed := printed e @ [s]\<rparr>"

definition print_n :: "nat \<Rightarrow> string \<Rightarrow> t_tokenline \<Rightarrow> t_tokenline" where
  "print_n n s e = e\<lparr>printed := printed e @ replicate n s\<rparr>"

abbreviation CURSOR_RIGHT :: string where "CURSOR_RIGHT \<equiv> [CHR 0x1B, CHR 0x5B, CHR 0x43]"
abbreviation CURSOR_LEFT :: string where "CURSOR_LEFT \<equiv> [CHR 0x1B, CHR 0x5B, CHR 0x44]"
abbreviation INDENT :: string where "INDENT \<equiv> [SPACE, SPACE, SPACE]"
abbreviation NL :: string where "NL \<equiv> [CHR 0x0A]"

subsection \<open>\<^verbatim>\<open>unsplit_line\<close> and \<^verbatim>\<open>split_line\<close>\<close>

text \<open>The loop of \<^verbatim>\<open>unsplit_line\<close> over the bytes \<^verbatim>\<open>buf[0 .. buf_len-1]\<close>, with its flag
  \<^verbatim>\<open>quoted\<close>; the result is the rewritten bytes.\<close>

fun unsplit_loop :: "bool \<Rightarrow> char list \<Rightarrow> char list" where
  "unsplit_loop quoted [] = []"
| "unsplit_loop quoted (c # cs) =
     (if c = DQUOTE then c # unsplit_loop True cs
      else if c = NUL then
        (if quoted then DQUOTE # unsplit_loop False cs
         else SPACE # unsplit_loop quoted cs)
      else c # unsplit_loop quoted cs)"

definition unsplit_line :: "t_tokenline \<Rightarrow> t_tokenline option" where
  "unsplit_line e =
     (if 0 \<le> buf_len e \<and> buf_len e \<le> int (length (buf e)) then do {
        let n = nat (buf_len e);
        let b = unsplit_loop False (take n (buf e)) @ drop n (buf e);
        b' \<leftarrow> wr b (buf_len e) NUL;
        Some (e\<lparr>buf := b'\<rparr>)
      } else None)"

text \<open>
  The loop of \<^verbatim>\<open>split_line\<close>.  Its arguments are \<^verbatim>\<open>TL_MAX_WORDS\<close>, the index \<open>i\<close>, the
  \<^verbatim>\<open>state\<close> (1: looking for a word, 2: in a word), \<^verbatim>\<open>quoted\<close>, the word offsets recorded
  so far (\<^verbatim>\<open>*num_words\<close> is their number) and the bytes from index \<open>i\<close> on.  The result is
  the rewritten bytes, the final \<^verbatim>\<open>quoted\<close> and the word offsets.  The loop stops at the
  end of the line or as soon as \<^verbatim>\<open>*num_words\<close> reaches \<^verbatim>\<open>TL_MAX_WORDS\<close>.
\<close>

fun split_loop ::
  "int \<Rightarrow> int \<Rightarrow> nat \<Rightarrow> bool \<Rightarrow> int list \<Rightarrow> char list \<Rightarrow> char list \<times> bool \<times> int list" where
  "split_loop mw i st quoted ws [] = ([], quoted, ws)"
| "split_loop mw i st quoted ws (c # cs) =
     (if \<not> int (length ws) < mw then (c # cs, quoted, ws)
      else if st = 1 then
        (if c = SPACE then
           (case split_loop mw (i + 1) 1 quoted ws cs of (r, q, w) \<Rightarrow> (c # r, q, w))
         else
           (let quoted' = (if c = DQUOTE then True else quoted);
                ws' = ws @ [i + (if quoted' then 1 else 0)]
            in case split_loop mw (i + 1) 2 quoted' ws' cs of (r, q, w) \<Rightarrow> (c # r, q, w)))
      else
        (if quoted \<and> c = DQUOTE then
           (case split_loop mw (i + 1) 1 False ws cs of (r, q, w) \<Rightarrow> (NUL # r, q, w))
         else if \<not> quoted \<and> c = SPACE then
           (case split_loop mw (i + 1) 1 quoted ws cs of (r, q, w) \<Rightarrow> (NUL # r, q, w))
         else
           (case split_loop mw (i + 1) 2 quoted ws cs of (r, q, w) \<Rightarrow> (c # r, q, w))))"

text \<open>\<^verbatim>\<open>split_line\<close> returns its truth value, the word offsets and the engine.\<close>

definition split_line ::
  "config \<Rightarrow> t_tokenline \<Rightarrow> bool \<Rightarrow> (bool \<times> int list \<times> t_tokenline) option" where
  "split_line cf e silent =
     (if 0 \<le> buf_len e \<and> buf_len e \<le> int (length (buf e)) then
        (let n = nat (buf_len e) in
         case split_loop (TL_MAX_WORDS cf) 0 1 False [] (take n (buf e)) of
           (r, quoted, ws) \<Rightarrow>
             (let e1 = e\<lparr>buf := r @ drop n (buf e)\<rparr> in
              if quoted then do {
                e2 \<leftarrow> unsplit_line (if silent then e1 else print ''Unmatched quote.\<newline>'' e1);
                Some (False, ws, e2)
              } else if int (length ws) = TL_MAX_WORDS cf then do {
                e2 \<leftarrow> unsplit_line (if silent then e1 else print ''Too many words.\<newline>'' e1);
                Some (False, ws, e2)
              } else Some (True, ws, e1)))
      else if buf_len e < 0 then
        (if 0 = TL_MAX_WORDS cf then map_option (\<lambda>t. (False, [], t)) (unsplit_line e)
         else Some (True, [], e))
      else None)"

subsection \<open>\<^verbatim>\<open>find_token\<close>\<close>

text \<open>The first loop of \<^verbatim>\<open>find_token\<close>: the index of the first entry before the sentinel
  whose display string equals the word.\<close>

fun find_exact :: "(int \<Rightarrow> string) \<Rightarrow> string \<Rightarrow> int \<Rightarrow> t_token list \<Rightarrow> int option" where
  "find_exact dict word i [] = None"
| "find_exact dict word i (t # ts) =
     (if token t = 0 then None
      else if word = dict (token t) then Some i
      else find_exact dict word (i + 1) ts)"

text \<open>The second loop, with the variable \<^verbatim>\<open>partial\<close>.  \<^verbatim>\<open>strncmp(word, s, strlen(word))\<close> is
  0 exactly when the first \<^verbatim>\<open>strlen(word)\<close> bytes of \<open>s\<close> are the word.\<close>

fun find_partial ::
  "(int \<Rightarrow> string) \<Rightarrow> string \<Rightarrow> int \<Rightarrow> int \<Rightarrow> t_token list \<Rightarrow> int" where
  "find_partial dict word i partial [] = partial"
| "find_partial dict word i partial (t # ts) =
     (if token t = 0 then partial
      else if length word \<ge> length (dict (token t)) then
        find_partial dict word (i + 1) partial ts
      else if take (length word) (dict (token t)) = word then
        (if partial \<noteq> -1 then -1 else find_partial dict word (i + 1) i ts)
      else find_partial dict word (i + 1) partial ts)"

definition find_token :: "t_token list \<Rightarrow> (int \<Rightarrow> string) \<Rightarrow> string \<Rightarrow> int" where
  "find_token toks dict word =
     (case find_exact dict word 0 toks of
        Some i \<Rightarrow> i
      | None \<Rightarrow> find_partial dict word 0 (-1) toks)"

text \<open>The entries of a token list before its sentinel, and their display strings.\<close>

definition entries :: "t_token list \<Rightarrow> t_token list" where
  "entries toks = takeWhile (\<lambda>t. token t \<noteq> 0) toks"

definition names :: "(int \<Rightarrow> string) \<Rightarrow> t_token list \<Rightarrow> string list" where
  "names dict toks = map (\<lambda>t. dict (token t)) (entries toks)"

subsection \<open>Editing the line: \<^verbatim>\<open>add_char\<close>, \<^verbatim>\<open>backspace\<close>, \<^verbatim>\<open>delete_line\<close>, \<^verbatim>\<open>set_line\<close>\<close>

definition add_char :: "t_tokenline \<Rightarrow> char \<Rightarrow> t_tokenline option" where
  "add_char e c =
     (if pos e = buf_len e then do {
        b1 \<leftarrow> wr (buf e) (buf_len e) c;
        b2 \<leftarrow> wr b1 (buf_len e + 1) NUL;
        str \<leftarrow> cstr b2 (buf_len e + 1 - 1);
        Some ((print str (e\<lparr>buf := b2, buf_len := buf_len e + 1\<rparr>))\<lparr>pos := pos e + 1\<rparr>)
      } else do {
        tail \<leftarrow> slice (buf e) (pos e) (buf_len e - pos e + 1);
        b1 \<leftarrow> blit (buf e) (pos e + 1) tail;
        b2 \<leftarrow> wr b1 (pos e) c;
        str \<leftarrow> cstr b2 (pos e);
        Some ((print_n (nat (buf_len e - pos e)) CURSOR_LEFT (print str (e\<lparr>buf := b2\<rparr>)))
                \<lparr>buf_len := buf_len e + 1, pos := pos e + 1\<rparr>)
      })"

definition backspace :: "t_tokenline \<Rightarrow> t_tokenline option" where
  "backspace e =
     (if pos e = buf_len e then do {
        b \<leftarrow> wr (buf e) (buf_len e - 1) NUL;
        Some ((print (CURSOR_LEFT @ [SPACE] @ CURSOR_LEFT) (e\<lparr>buf := b\<rparr>))
                \<lparr>buf_len := buf_len e - 1, pos := pos e - 1\<rparr>)
      } else do {
        tail \<leftarrow> slice (buf e) (pos e) (buf_len e - pos e + 1);
        b \<leftarrow> blit (buf e) (pos e - 1) tail;
        str \<leftarrow> cstr b (pos e - 1);
        Some ((print_n (nat (buf_len e - pos e + 1)) CURSOR_LEFT
                 (print [SPACE] (print str (print CURSOR_LEFT (e\<lparr>buf := b\<rparr>)))))
                \<lparr>buf_len := buf_len e - 1, pos := pos e - 1\<rparr>)
      })"

text \<open>The loop \<^verbatim>\<open>while (tl->pos < tl->buf_len) { tl->pos++; print(...) }\<close>, which
  \<^verbatim>\<open>delete_line\<close>, Ctrl-E and the End key share: it runs \<^verbatim>\<open>buf_len - pos\<close> times when that
  is positive and not at all otherwise.\<close>

definition cursor_to_end :: "string \<Rightarrow> t_tokenline \<Rightarrow> t_tokenline" where
  "cursor_to_end sq e =
     (if pos e < buf_len e
      then (print_n (nat (buf_len e - pos e)) sq e)\<lparr>pos := buf_len e\<rparr> else e)"

text \<open>The loop \<^verbatim>\<open>while (tl->pos) { tl->pos--; print(...) }\<close> of Ctrl-A and the Home key.  It
  returns only from a position that is not negative.\<close>

definition cursor_to_start :: "string \<Rightarrow> t_tokenline \<Rightarrow> t_tokenline option" where
  "cursor_to_start sq e =
     (if 0 \<le> pos e then Some ((print_n (nat (pos e)) sq e)\<lparr>pos := 0\<rparr>) else None)"

lemma backspace_pos:
  assumes "backspace e = Some e'"
  shows "0 < pos e \<and> pos e' = pos e - 1"
proof (cases "pos e = buf_len e")
  case True
  with assms obtain b where "wr (buf e) (buf_len e - 1) NUL = Some b"
    and "e' = (print (CURSOR_LEFT @ [SPACE] @ CURSOR_LEFT) (e\<lparr>buf := b\<rparr>))
                \<lparr>buf_len := buf_len e - 1, pos := pos e - 1\<rparr>"
    by (auto simp: backspace_def split: bind_splits)
  with True show ?thesis by (auto simp: wr_def split: if_splits)
next
  case False
  with assms obtain tail b str where "blit (buf e) (pos e - 1) tail = Some b"
    and "e' = (print_n (nat (buf_len e - pos e + 1)) CURSOR_LEFT
                 (print [SPACE] (print str (print CURSOR_LEFT (e\<lparr>buf := b\<rparr>)))))
                \<lparr>buf_len := buf_len e - 1, pos := pos e - 1\<rparr>"
    by (auto simp: backspace_def split: bind_splits)
  then show ?thesis by (auto simp: blit_def split: if_splits)
qed

text \<open>The loop \<^verbatim>\<open>while (tl->pos) backspace(tl);\<close> of \<^verbatim>\<open>delete_line\<close>.\<close>

function backspace_all :: "t_tokenline \<Rightarrow> t_tokenline option" where
  "backspace_all e =
     (if pos e \<noteq> 0 then
        (case backspace e of None \<Rightarrow> None | Some e' \<Rightarrow> backspace_all e')
      else Some e)"
  by pat_completeness auto
termination
  by (relation "measure (\<lambda>e. nat (pos e))") (auto dest: backspace_pos)

definition delete_line :: "t_tokenline \<Rightarrow> t_tokenline option" where
  "delete_line e = backspace_all (cursor_to_end CURSOR_RIGHT e)"

text \<open>\<^verbatim>\<open>set_line\<close> receives the C string \<open>line\<close> that its pointer argument starts.\<close>

definition set_line :: "config \<Rightarrow> t_tokenline \<Rightarrow> string \<Rightarrow> t_tokenline option" where
  "set_line cf e line =
     (let sz = int (length line) in
      if sz > TL_MAX_LINE_LEN cf - 1 then add_char e (CHR 0x21)
      else if pos e = buf_len e then do {
        b \<leftarrow> blit (buf e) (buf_len e) line;
        b' \<leftarrow> wr b (buf_len e + sz) NUL;
        Some ((print line e)\<lparr>pos := pos e + sz, buf := b', buf_len := buf_len e + sz\<rparr>)
      } else Some e)"

subsection \<open>The history ring\<close>

definition hist_dec :: "config \<Rightarrow> int \<Rightarrow> int" where
  "hist_dec cf i = (if i - 1 < 0 then TL_MAX_HISTORY_SIZE cf - 1 else i - 1)"

definition hist_inc :: "config \<Rightarrow> int \<Rightarrow> int" where
  "hist_inc cf i = (if i + 1 = TL_MAX_HISTORY_SIZE cf then 0 else i + 1)"

text \<open>The \<^verbatim>\<open>while\<close> loop of \<^verbatim>\<open>history_previous\<close>, on \<^verbatim>\<open>entry\<close> and \<^verbatim>\<open>prev\<close>.\<close>

partial_function (option) history_previous_loop ::
  "config \<Rightarrow> char list \<Rightarrow> int \<Rightarrow> int \<Rightarrow> int option" where
  "history_previous_loop cf hb entry prev =
     do {
       c \<leftarrow> rd hb entry;
       if c \<noteq> NUL then history_previous_loop cf hb (hist_dec cf entry) entry
       else Some prev
     }"

declare history_previous_loop.simps [code]

definition history_previous :: "config \<Rightarrow> t_tokenline \<Rightarrow> int \<Rightarrow> int option" where
  "history_previous cf e entry =
     (if entry = hist_begin e then Some (-1)
      else
        (let entry1 = hist_dec cf entry;
             prev = entry1;
             entry2 = hist_dec cf entry1
         in history_previous_loop cf (hist_buf e) entry2 prev))"

definition history_up :: "config \<Rightarrow> t_tokenline \<Rightarrow> t_tokenline option" where
  "history_up cf e =
     do {
       entry \<leftarrow> (if hist_step e = -1 then history_previous cf e (hist_end e)
                  else history_previous cf e (hist_step e));
       if entry = -1 then Some e
       else do {
         e1 \<leftarrow> delete_line e;
         line \<leftarrow> cstr (hist_buf e1) entry;
         e2 \<leftarrow> set_line cf e1 line;
         Some (e2\<lparr>hist_step := entry\<rparr>)
       }
     }"

text \<open>The first \<^verbatim>\<open>while\<close> loop of \<^verbatim>\<open>history_down\<close>, which runs to the terminator of the
  entry.\<close>

partial_function (option) history_down_loop ::
  "config \<Rightarrow> char list \<Rightarrow> int \<Rightarrow> int option" where
  "history_down_loop cf hb i =
     do {
       c \<leftarrow> rd hb i;
       if c \<noteq> NUL then history_down_loop cf hb (hist_inc cf i) else Some i
     }"

declare history_down_loop.simps [code]

definition history_down :: "config \<Rightarrow> t_tokenline \<Rightarrow> t_tokenline option" where
  "history_down cf e =
     (if hist_step e = -1 then Some e
      else do {
        e1 \<leftarrow> delete_line e;
        if hist_step e1 = hist_end e1 then Some (e1\<lparr>hist_step := -1\<rparr>)
        else do {
          i1 \<leftarrow> history_down_loop cf (hist_buf e1) (hist_step e1);
          let i = hist_inc cf i1;
          line \<leftarrow> cstr (hist_buf e1) i;
          e2 \<leftarrow> set_line cf e1 line;
          Some (e2\<lparr>hist_step := i\<rparr>)
        }
      })"

text \<open>One round of the \<^verbatim>\<open>for\<close> loop of \<^verbatim>\<open>history_show\<close>, and the loop.\<close>

definition history_show_entry :: "config \<Rightarrow> t_tokenline \<Rightarrow> int \<Rightarrow> t_tokenline option" where
  "history_show_entry cf e entry =
     do {
       str \<leftarrow> cstr (hist_buf e) entry;
       let e1 = print str e;
       seg \<leftarrow> slice (hist_buf e) entry (TL_MAX_HISTORY_SIZE cf - entry);
       e2 \<leftarrow> (if NUL \<notin> set seg
               then map_option (\<lambda>s. print s e1) (cstr (hist_buf e) 0) else Some e1);
       Some (print NL e2)
     }"

partial_function (option) history_show_loop ::
  "config \<Rightarrow> t_tokenline \<Rightarrow> int \<Rightarrow> t_tokenline option" where
  "history_show_loop cf e entry =
     (if entry \<noteq> -1 then do {
        e1 \<leftarrow> history_show_entry cf e entry;
        entry' \<leftarrow> history_previous cf e1 entry;
        history_show_loop cf e1 entry'
      } else Some e)"

declare history_show_loop.simps [code]

definition history_show :: "config \<Rightarrow> t_tokenline \<Rightarrow> t_tokenline option" where
  "history_show cf e =
     do {
       entry0 \<leftarrow> history_previous cf e (hist_end e);
       entry \<leftarrow> history_previous cf e entry0;
       history_show_loop cf e entry
     }"

text \<open>The two loops of \<^verbatim>\<open>history_delete\<close>.  The first frees bytes: its state is the ring,
  \<^verbatim>\<open>freed\<close> and \<open>i\<close>.  The second is the \<^verbatim>\<open>do ... while\<close> that skips zero bytes.\<close>

partial_function (option) history_delete_loop ::
  "config \<Rightarrow> int \<Rightarrow> char list \<Rightarrow> int \<Rightarrow> int \<Rightarrow> (char list \<times> int) option" where
  "history_delete_loop cf sz hb freed i =
     do {
       more \<leftarrow> (if freed < sz then Some True else map_option (\<lambda>c. c \<noteq> NUL) (rd hb i));
       if more then do {
         hb' \<leftarrow> wr hb i NUL;
         history_delete_loop cf sz hb' (freed + 1) (hist_inc cf i)
       } else Some (hb, i)
     }"

declare history_delete_loop.simps [code]

partial_function (option) history_delete_skip ::
  "config \<Rightarrow> int \<Rightarrow> char list \<Rightarrow> int \<Rightarrow> int option" where
  "history_delete_skip cf entry hb i =
     do {
       let i' = hist_inc cf i;
       c \<leftarrow> rd hb i';
       if c = NUL \<and> i' < entry then history_delete_skip cf entry hb i' else Some i'
     }"

declare history_delete_skip.simps [code]

definition history_delete ::
  "config \<Rightarrow> t_tokenline \<Rightarrow> int \<Rightarrow> int \<Rightarrow> (int \<times> t_tokenline) option" where
  "history_delete cf e entry sz =
     do {
       (hb, i) \<leftarrow> history_delete_loop cf sz (hist_buf e) 0 entry;
       hb' \<leftarrow> wr hb i NUL;
       i' \<leftarrow> history_delete_skip cf entry hb' i;
       Some (i', e\<lparr>hist_buf := hb'\<rparr>)
     }"

definition history_add :: "config \<Rightarrow> t_tokenline \<Rightarrow> t_tokenline option" where
  "history_add cf e =
     do {
       line \<leftarrow> cstr (buf e) 0;
       let sz = int (length line) + 1;
       let M = TL_MAX_HISTORY_SIZE cf;
       e1 \<leftarrow>
         (if hist_begin e = hist_end e then do {
            src \<leftarrow> slice (buf e) 0 sz;
            hb \<leftarrow> blit (hist_buf e) 0 src;
            Some (e\<lparr>hist_buf := hb\<rparr>)
          } else if hist_begin e < hist_end e then
            (if M - hist_end e \<ge> sz then do {
               src \<leftarrow> slice (buf e) 0 sz;
               hb \<leftarrow> blit (hist_buf e) (hist_end e) src;
               Some (e\<lparr>hist_buf := hb\<rparr>)
             } else do {
               let part1 = M - hist_end e;
               (b, ed) \<leftarrow> history_delete cf e (hist_begin e) (sz - part1);
               let ed1 = ed\<lparr>hist_begin := b\<rparr>;
               src1 \<leftarrow> slice (buf ed1) 0 part1;
               hb1 \<leftarrow> blit (hist_buf ed1) (hist_end ed1) src1;
               src2 \<leftarrow> slice (buf ed1) part1 (sz - part1);
               hb2 \<leftarrow> blit hb1 0 src2;
               Some (ed1\<lparr>hist_buf := hb2\<rparr>)
             })
          else
            (let part1 = hist_begin e - hist_end e in
             if part1 \<le> sz then do {
               (b, ed) \<leftarrow> history_delete cf e (hist_begin e) (sz - part1);
               let ed1 = ed\<lparr>hist_begin := b\<rparr>;
               let part1' = M - hist_end ed1;
               if part1' < sz then do {
                 src1 \<leftarrow> slice (buf ed1) 0 part1';
                 hb1 \<leftarrow> blit (hist_buf ed1) (hist_end ed1) src1;
                 src2 \<leftarrow> slice (buf ed1) part1' (sz - part1');
                 hb2 \<leftarrow> blit hb1 0 src2;
                 Some (ed1\<lparr>hist_buf := hb2\<rparr>)
               } else do {
                 src \<leftarrow> slice (buf ed1) 0 sz;
                 hb \<leftarrow> blit (hist_buf ed1) (hist_end ed1) src;
                 Some (ed1\<lparr>hist_buf := hb\<rparr>)
               }
             } else do {
               src \<leftarrow> slice (buf e) 0 sz;
               hb \<leftarrow> blit (hist_buf e) (hist_end e) src;
               Some (e\<lparr>hist_buf := hb\<rparr>)
             }));
       let end1 = hist_end e1 + sz;
       let e2 = e1\<lparr>hist_end := (if end1 \<ge> M then end1 - M else end1)\<rparr>;
       if hist_begin e2 = hist_end e2 then do {
         oldest \<leftarrow> cstr (hist_buf e2) (hist_begin e2);
         (b, e3) \<leftarrow> history_delete cf e2 (hist_begin e2) (int (length oldest));
         Some (e3\<lparr>hist_begin := b\<rparr>)
       } else Some e2
     }"

subsection \<open>The C library function \<^verbatim>\<open>strtol\<close>, with base 0\<close>

text \<open>
  \<^verbatim>\<open>strtol(word, &suffix, 0)\<close> as ISO C describes it: white space is skipped, a sign is
  optional, \<^verbatim>\<open>0x\<close> or \<^verbatim>\<open>0X\<close> before a hexadecimal digit selects base 16, another leading
  \<^verbatim>\<open>0\<close> base 8, anything else base 10; the digits of that base are read as far as they
  go.  The result is the value, held to the range of \<^verbatim>\<open>long\<close>, and the unread suffix; when
  no digit is read the value is 0 and the suffix is the whole string.
\<close>

definition isspace :: "char \<Rightarrow> bool" where
  "isspace c = (c = SPACE \<or> c = CHR 0x09 \<or> c = CHR 0x0A \<or> c = CHR 0x0B \<or> c = CHR 0x0C
                \<or> c = CHR 0x0D)"

definition digit_val :: "char \<Rightarrow> nat" where
  "digit_val c =
     (let n = (of_char c :: nat) in
      if 48 \<le> n \<and> n \<le> 57 then n - 48
      else if 97 \<le> n \<and> n \<le> 122 then n - 87
      else if 65 \<le> n \<and> n \<le> 90 then n - 55
      else 36)"

fun strtol_digits :: "nat \<Rightarrow> int \<Rightarrow> string \<Rightarrow> int \<times> string" where
  "strtol_digits b acc [] = (acc, [])"
| "strtol_digits b acc (c # cs) =
     (if digit_val c < b then strtol_digits b (acc * int b + int (digit_val c)) cs
      else (acc, c # cs))"

definition strtol :: "config \<Rightarrow> string \<Rightarrow> int \<times> string" where
  "strtol cf s =
     (let s1 = dropWhile isspace s;
          neg = (s1 \<noteq> [] \<and> hd s1 = CHR 0x2D);
          s2 = (if s1 \<noteq> [] \<and> (hd s1 = CHR 0x2D \<or> hd s1 = CHR 0x2B) then drop 1 s1 else s1);
          hex = (case s2 of
                   c0 # x # d # r \<Rightarrow>
                     c0 = CHR ''0'' \<and> (x = CHR ''x'' \<or> x = CHR ''X'') \<and> digit_val d < 16
                 | _ \<Rightarrow> False);
          base = (if hex then 16 else if s2 \<noteq> [] \<and> hd s2 = CHR ''0'' then 8 else 10);
          s3 = (if hex then drop 2 s2 else s2)
      in case strtol_digits base 0 s3 of
           (v, rest) \<Rightarrow>
             if length rest = length s3 then (0, s)
             else (max (- LONG_MAX cf - 1) (min (LONG_MAX cf) (if neg then - v else v)), rest))"

subsection \<open>\<^verbatim>\<open>tokenize\<close>\<close>

text \<open>The local variables of \<^verbatim>\<open>tokenize\<close> that live across its loop.  \<^verbatim>\<open>token_stack\<close> has
  8 slots.\<close>

record walk =
  finished :: bool
  arg_needed :: argtype
  arg_tokens :: "t_token list option"
  token_stack :: "t_token list option list"
  cur_tsp :: int
  cur_tp :: int
  cur_bufsize :: int

definition put_token :: "t_tokenline \<Rightarrow> int \<Rightarrow> int \<Rightarrow> t_tokenline option" where
  "put_token e i v =
     map_option (\<lambda>tk. e\<lparr>parsed := (parsed e)\<lparr>tokens := tk\<rparr>\<rparr>) (wr (tokens (parsed e)) i v)"

definition put_bytes :: "t_tokenline \<Rightarrow> int \<Rightarrow> char list \<Rightarrow> t_tokenline option" where
  "put_bytes e off bs =
     map_option (\<lambda>pb. e\<lparr>parsed := (parsed e)\<lparr>pbuf := pb\<rparr>\<rparr>) (blit (pbuf (parsed e)) off bs)"

definition set_last :: "t_tokenline \<Rightarrow> t_token \<Rightarrow> t_tokenline" where
  "set_last e ent = e\<lparr>parsed := (parsed e)\<lparr>last_token_entry := Some ent\<rparr>\<rparr>"

text \<open>
  One round of the loop of \<^verbatim>\<open>tokenize\<close>, for the word at offset \<open>off\<close> of the line
  buffer.  \<open>compl\<close> says that \<^verbatim>\<open>complete_tokens\<close> is not NULL.  The truth value of the
  result is \<open>False\<close> where the C code returns \<^verbatim>\<open>FALSE\<close> from inside the loop.
\<close>

definition tokenize_word ::
  "config \<Rightarrow> bool \<Rightarrow> int \<Rightarrow> walk \<Rightarrow> t_tokenline \<Rightarrow> (bool \<times> walk \<times> t_tokenline) option" where
  "tokenize_word cf compl off w e =
     (if finished w then
        Some (False, w, if compl then e else print ''Too many arguments.\<newline>'' e)
      else if arg_needed w = TARG_NONE then do {
        word \<leftarrow> cstr (buf e) off;
        top \<leftarrow> rd (token_stack w) (cur_tsp w);
        toks \<leftarrow> top;
        let t_idx = find_token toks (token_dict e) word;
        if t_idx > -1 then do {
          ent \<leftarrow> rd toks t_idx;
          e1 \<leftarrow> put_token e (cur_tp w) (token ent);
          let e2 = set_last e1 ent;
          let w1 = w\<lparr>cur_tp := cur_tp w + 1\<rparr>;
          if arg_type ent = TARG_HELP then Some (True, w1, e2)
          else if arg_type ent \<noteq> TARG_NONE then
            Some (True,
                  w1\<lparr>arg_needed := arg_type ent,
                     arg_tokens := (if arg_type ent = TARG_TOKEN then subtokens ent
                                    else arg_tokens w1)\<rparr>, e2)
          else if subtokens ent \<noteq> None then do {
            st \<leftarrow> wr (token_stack w1) (cur_tsp w1 + 1) (subtokens ent);
            Some (True, w1\<lparr>token_stack := st, cur_tsp := cur_tsp w1 + 1\<rparr>, e2)
          } else Some (True, w1\<lparr>finished := True\<rparr>, e2)
        } else Some (False, w, if compl then e else print ''Invalid command.\<newline>'' e)
      } else
        (case arg_needed w of
           TARG_INT \<Rightarrow> do {
             word \<leftarrow> cstr (buf e) off;
             let (arg_int, suffix) = strtol cf word;
             if suffix \<noteq> [] then
               Some (False, w, if compl then e else print ''Invalid value.\<newline>'' e)
             else do {
               e1 \<leftarrow> put_token e (cur_tp w) (targ cf TARG_INT);
               e2 \<leftarrow> put_token e1 (cur_tp w + 1) (cur_bufsize w);
               e3 \<leftarrow> put_bytes e2 (cur_bufsize w) (int_repr cf arg_int);
               Some (True,
                     w\<lparr>cur_tp := cur_tp w + 2,
                        cur_bufsize := cur_bufsize w + int (length (int_repr cf arg_int)),
                        arg_needed := TARG_NONE\<rparr>, e3)
             }
           }
         | TARG_FLOAT \<Rightarrow> do {
             word \<leftarrow> cstr (buf e) off;
             let (arg_float, suffix) = strtof_bytes cf word;
             if suffix \<noteq> [] then
               Some (False, w, if compl then e else print ''Invalid value.\<newline>'' e)
             else do {
               e1 \<leftarrow> put_token e (cur_tp w) (targ cf TARG_FLOAT);
               e2 \<leftarrow> put_token e1 (cur_tp w + 1) (cur_bufsize w);
               e3 \<leftarrow> put_bytes e2 (cur_bufsize w) arg_float;
               Some (True,
                     w\<lparr>cur_tp := cur_tp w + 2,
                        cur_bufsize := cur_bufsize w + int (length arg_float),
                        arg_needed := TARG_NONE\<rparr>, e3)
             }
           }
         | TARG_STRING \<Rightarrow> do {
             e1 \<leftarrow> put_token e (cur_tp w) (targ cf TARG_STRING);
             e2 \<leftarrow> put_token e1 (cur_tp w + 1) (cur_bufsize w);
             word \<leftarrow> cstr (buf e) off;
             let sz = int (length word) + 1;
             e3 \<leftarrow> put_bytes e2 (cur_bufsize w) (word @ [NUL]);
             e4 \<leftarrow> put_bytes e3 (cur_bufsize w + sz) [NUL];
             Some (True,
                   w\<lparr>cur_tp := cur_tp w + 2, cur_bufsize := cur_bufsize w + sz,
                      arg_needed := TARG_NONE\<rparr>, e4)
           }
         | TARG_TOKEN \<Rightarrow> do {
             word \<leftarrow> cstr (buf e) off;
             toks \<leftarrow> arg_tokens w;
             let t_idx = find_token toks (token_dict e) word;
             if t_idx > -1 then do {
               ent \<leftarrow> rd toks t_idx;
               e1 \<leftarrow> put_token e (cur_tp w) (token ent);
               Some (True, w\<lparr>cur_tp := cur_tp w + 1, arg_needed := TARG_NONE\<rparr>,
                     set_last e1 ent)
             } else
               Some (False, w, if compl then e else print ''Invalid value.\<newline>'' e)
           }
         | _ \<Rightarrow> Some (True, w\<lparr>arg_needed := TARG_NONE\<rparr>, e)))"

fun tokenize_loop ::
  "config \<Rightarrow> bool \<Rightarrow> int list \<Rightarrow> walk \<Rightarrow> t_tokenline \<Rightarrow> (bool \<times> walk \<times> t_tokenline) option"
  where
  "tokenize_loop cf compl [] w e = Some (True, w, e)"
| "tokenize_loop cf compl (off # offs) w e =
     (case tokenize_word cf compl off w e of
        None \<Rightarrow> None
      | Some (ok, w', e') \<Rightarrow>
          if ok then tokenize_loop cf compl offs w' e' else Some (False, w', e'))"

text \<open>The locals as \<^verbatim>\<open>tokenize\<close> initialises them; \<open>lvl\<close> is
  \<^verbatim>\<open>tl->token_levels[tl->token_level]\<close>.\<close>

definition walk_init :: "t_token list option \<Rightarrow> walk" where
  "walk_init lvl =
     \<lparr>finished = False, arg_needed = TARG_NONE, arg_tokens = None,
      token_stack = (replicate 8 None)[0 := lvl],
      cur_tsp = 0, cur_tp = 0, cur_bufsize = 0\<rparr>"

text \<open>
  \<^verbatim>\<open>tokenize\<close> returns its truth value, what it stores through \<^verbatim>\<open>complete_tokens\<close> and
  \<^verbatim>\<open>complete_arg\<close>, and the engine.  \<open>words\<close> holds the first \<^verbatim>\<open>num_words\<close> word offsets.
\<close>

definition tokenize ::
  "config \<Rightarrow> t_tokenline \<Rightarrow> int list \<Rightarrow> bool \<Rightarrow>
     (bool \<times> t_token list option \<times> argtype \<times> t_tokenline) option" where
  "tokenize cf e words compl =
     do {
       top \<leftarrow> rd (token_levels e) (token_level e);
       (ok, w, e1) \<leftarrow> tokenize_loop cf compl words (walk_init top) e;
       if \<not> ok then Some (False, None, TARG_NONE, e1)
       else if arg_needed w \<noteq> TARG_NONE \<and> \<not> compl then
         Some (False, None, TARG_NONE, print ''Missing argument.\<newline>'' e1)
       else do {
         e2 \<leftarrow> put_token e1 (cur_tp w) 0;
         ct \<leftarrow> (if \<not> compl then Some None
                else if finished w then Some None
                else if arg_needed w = TARG_TOKEN then Some (arg_tokens w)
                else rd (token_stack w) (cur_tsp w));
         Some (True, ct, arg_needed w, e2)
       }
     }"

subsection \<open>\<^verbatim>\<open>show_help\<close> and \<^verbatim>\<open>process_line\<close>\<close>

text \<open>The body of the listing loop of \<^verbatim>\<open>show_help\<close> for one entry.  The padding is read
  from the 16 bytes of \<^verbatim>\<open>space\<close>, at the offset \<^verbatim>\<open>strlen\<close> of the display string.\<close>

definition show_help_entry :: "t_tokenline \<Rightarrow> t_token \<Rightarrow> t_tokenline option" where
  "show_help_entry e t =
     (let name = token_dict e (token t);
          e1 = print name (print INDENT e)
      in case help_str t of
           None \<Rightarrow> Some (print NL e1)
         | Some h \<Rightarrow> do {
             pad \<leftarrow> cstr (replicate 15 SPACE @ [NUL]) (int (length name));
             Some (print NL (print h (print pad e1)))
           })"

fun show_help_loop :: "t_tokenline \<Rightarrow> t_token list \<Rightarrow> t_tokenline option" where
  "show_help_loop e [] = Some e"
| "show_help_loop e (t # ts) =
     (if token t = 0 then Some e
      else case show_help_entry e t of None \<Rightarrow> None | Some e' \<Rightarrow> show_help_loop e' ts)"

definition show_help :: "t_tokenline \<Rightarrow> int \<Rightarrow> t_tokenline option" where
  "show_help e num_words =
     do {
       last \<leftarrow> last_token_entry (parsed e);
       let e1 = (case help_str last of
                   Some h \<Rightarrow> print NL (print h e)
                 | None \<Rightarrow> e);
       toks \<leftarrow> (if num_words = 1 then rd (token_levels e1) 0 else Some (subtokens last));
       e2 \<leftarrow> (case toks of Some ts \<Rightarrow> show_help_loop e1 ts | None \<Rightarrow> Some e1);
       Some (if help_str last = None \<and> toks = None
             then print ''No help available.\<newline>'' e2 else e2)
     }"

text \<open>The body of the \<^verbatim>\<open>do ... while (FALSE)\<close> block of \<^verbatim>\<open>process_line\<close>; each
  \<^verbatim>\<open>break\<close> is a branch that returns the engine as it is.\<close>

definition process_line_body :: "config \<Rightarrow> t_tokenline \<Rightarrow> t_tokenline option" where
  "process_line_body cf e =
     (if buf_len e = 0 then Some e
      else do {
        e1 \<leftarrow> history_add cf e;
        (ok, words, e2) \<leftarrow> split_line cf e1 False;
        if \<not> ok then Some e2
        else if length words = 0 then Some e2
        else do {
          w0 \<leftarrow> rd words 0;
          first \<leftarrow> cstr (buf e2) w0;
          if first = ''help'' then do {
            (r, ct, ca, e3) \<leftarrow> tokenize cf e2 words True;
            if last_token_entry (parsed e3) \<noteq> None
            then show_help e3 (int (length words)) else Some e3
          } else if first = ''history'' then history_show cf e2
          else do {
            (r, ct, ca, e3) \<leftarrow> tokenize cf e2 words False;
            if \<not> r then Some e3
            else if callback e3 then Some (e3\<lparr>calls := calls e3 @ [parsed e3]\<rparr>)
            else Some e3
          }
        }
      })"

definition process_line :: "config \<Rightarrow> t_tokenline \<Rightarrow> t_tokenline option" where
  "process_line cf e =
     do {
       e1 \<leftarrow> process_line_body cf (print NL e);
       b \<leftarrow> wr (buf e1) 0 NUL;
       let e2 = e1\<lparr>buf := b, buf_len := 0, escape_len := 0, pos := 0\<rparr>;
       Some (print (prompt e2) e2)
     }"

subsection \<open>\<^verbatim>\<open>complete\<close>\<close>

text \<open>Listing the display strings of a token list, as the first and the last branch of
  \<^verbatim>\<open>complete\<close> do.\<close>

fun list_tokens :: "t_tokenline \<Rightarrow> t_token list \<Rightarrow> t_tokenline" where
  "list_tokens e [] = e"
| "list_tokens e (t # ts) =
     (if token t = 0 then e
      else list_tokens (print NL (print (token_dict e (token t)) (print INDENT e))) ts)"

text \<open>The matching loop of the second branch, on \<^verbatim>\<open>partial\<close> and \<^verbatim>\<open>multiple\<close>.
  \<^verbatim>\<open>strncmp(word, s, strlen(word))\<close> is 0 exactly when the word is a prefix of \<open>s\<close>.\<close>

fun complete_scan ::
  "string \<Rightarrow> t_token list \<Rightarrow> int \<Rightarrow> bool \<Rightarrow> t_tokenline \<Rightarrow> int \<times> bool \<times> t_tokenline" where
  "complete_scan word [] partial multiple e = (partial, multiple, e)"
| "complete_scan word (t # ts) partial multiple e =
     (if token t = 0 then (partial, multiple, e)
      else if take (length word) (token_dict e (token t)) = word then
        (if partial \<noteq> 0 then
           complete_scan word ts (token t) True
             (print (token_dict e partial) (print INDENT (print NL e)))
         else complete_scan word ts (token t) multiple e)
      else complete_scan word ts partial multiple e)"

fun add_chars :: "t_tokenline \<Rightarrow> string \<Rightarrow> t_tokenline option" where
  "add_chars e [] = Some e"
| "add_chars e (c # cs) = (case add_char e c of None \<Rightarrow> None | Some e' \<Rightarrow> add_chars e' cs)"

text \<open>The three branches of \<^verbatim>\<open>complete\<close>.  Each returns the engine and \<^verbatim>\<open>reprompt\<close>, or
  \<open>None\<close> in the second component position of the outer option when the C code returns
  early: the result \<open>Some (Inl e)\<close> is the early \<^verbatim>\<open>return\<close>, \<open>Some (Inr (e, reprompt))\<close>
  goes on to the common end of the function.\<close>

definition complete_word ::
  "config \<Rightarrow> t_tokenline \<Rightarrow> (t_tokenline + t_tokenline \<times> bool) option" where
  "complete_word cf e =
     do {
       (ok, words, e1) \<leftarrow> split_line cf e True;
       if \<not> ok \<or> length words = 0 then Some (Inl e1)
       else do {
         (r, toks, ca, e2) \<leftarrow> tokenize cf e1 (butlast words) True;
         if \<not> r then Some (Inr (e2, False))
         else case toks of
           None \<Rightarrow> Some (Inr (e2, False))
         | Some ts \<Rightarrow> do {
             off \<leftarrow> rd words (int (length words) - 1);
             word \<leftarrow> cstr (buf e2) off;
             let (partial, multiple, e3) = complete_scan word ts 0 False e2;
             if partial \<noteq> 0 then
               (if multiple then
                  Some (Inr (print NL (print (token_dict e3 partial)
                                         (print INDENT (print NL e3))), True))
                else do {
                  e4 \<leftarrow> add_chars e3 (drop (length word) (token_dict e3 partial));
                  e5 \<leftarrow> add_char e4 SPACE;
                  Some (Inr (e5, False))
                })
             else Some (Inr (e3, False))
           }
       }
     }"

definition complete_next ::
  "config \<Rightarrow> t_tokenline \<Rightarrow> (t_tokenline + t_tokenline \<times> bool) option" where
  "complete_next cf e =
     do {
       (ok, words, e1) \<leftarrow> split_line cf e True;
       if \<not> ok \<or> length words = 0 then Some (Inl e1)
       else do {
         (r, toks, arg, e2) \<leftarrow> tokenize cf e1 words True;
         if \<not> r then Some (Inr (e2, False))
         else if arg \<noteq> TARG_NONE \<and> arg \<noteq> TARG_TOKEN then
           Some (Inr ((case arg of
                         TARG_INT \<Rightarrow> print (INDENT @ ''\<newline><integer>\<newline>'') e2
                       | TARG_FLOAT \<Rightarrow> print (INDENT @ ''\<newline><float>\<newline>'') e2
                       | TARG_STRING \<Rightarrow> print (INDENT @ ''\<newline><string>\<newline>'') e2
                       | _ \<Rightarrow> e2), True))
         else case toks of
           None \<Rightarrow> Some (Inr (e2, False))
         | Some ts \<Rightarrow> Some (Inr (list_tokens (print NL e2) ts, entries ts \<noteq> []))
       }
     }"

definition complete :: "config \<Rightarrow> t_tokenline \<Rightarrow> t_tokenline option" where
  "complete cf e =
     do {
       r \<leftarrow> (if pos e = 0 then do {
                top \<leftarrow> rd (token_levels e) 0;
                toks \<leftarrow> top;
                Some (Inr (list_tokens (print NL e) toks, True))
              } else do {
                c \<leftarrow> rd (buf e) (pos e - 1);
                if c \<noteq> SPACE then complete_word cf e else complete_next cf e
              });
       case r of
         Inl e1 \<Rightarrow> Some e1
       | Inr (e1, reprompt) \<Rightarrow> do {
           e2 \<leftarrow> unsplit_line e1;
           if reprompt then do {
             line \<leftarrow> cstr (buf e2) 0;
             Some (print line (print (prompt e2) e2))
           } else Some e2
         }
     }"

subsection \<open>\<^verbatim>\<open>process_escape\<close>, \<^verbatim>\<open>tl_init\<close>, \<^verbatim>\<open>tl_set_prompt\<close>, \<^verbatim>\<open>tl_set_callback\<close>, \<^verbatim>\<open>tl_input\<close>\<close>

text \<open>\<^verbatim>\<open>process_escape\<close> returns its truth value and the engine.  \<^verbatim>\<open>strncmp\<close> with a
  literal of \<open>n\<close> bytes, none of them NUL, is 0 exactly when the first \<open>n\<close> bytes of the
  escape buffer are the literal.\<close>

definition process_escape :: "config \<Rightarrow> t_tokenline \<Rightarrow> (bool \<times> t_tokenline) option" where
  "process_escape cf e =
     (if escape_len e = 4 then do {
        sq \<leftarrow> slice (escape e) 0 4;
        if sq = [CHR 0x1B, CHR 0x5B, CHR 0x33, CHR 0x7E] then
          (if pos e < buf_len e then do {
             tail \<leftarrow> slice (buf e) (pos e + 1) (buf_len e - pos e);
             b \<leftarrow> blit (buf e) (pos e) tail;
             str \<leftarrow> cstr b (pos e);
             Some (True,
                   (print_n (nat (buf_len e - pos e)) CURSOR_LEFT
                      (print [SPACE] (print str (e\<lparr>buf := b\<rparr>))))\<lparr>buf_len := buf_len e - 1\<rparr>)
           } else Some (True, e))
        else Some (True, e)
      } else if escape_len e = 3 then do {
        sq \<leftarrow> slice (escape e) 0 3;
        if sq = [CHR 0x1B, CHR 0x5B, CHR 0x41] then
          map_option (Pair True) (history_up cf e)
        else if sq = [CHR 0x1B, CHR 0x5B, CHR 0x42] then
          map_option (Pair True) (history_down cf e)
        else if sq = [CHR 0x1B, CHR 0x5B, CHR 0x44] then
          Some (True, if pos e > 0
                      then print [CHR 0x1B, CHR 0x5B, CHR 0x31, CHR 0x44] (e\<lparr>pos := pos e - 1\<rparr>)
                      else e)
        else if sq = [CHR 0x1B, CHR 0x5B, CHR 0x43] then
          Some (True, if pos e < buf_len e
                      then print [CHR 0x1B, CHR 0x5B, CHR 0x31, CHR 0x43] (e\<lparr>pos := pos e + 1\<rparr>)
                      else e)
        else if sq = [CHR 0x1B, CHR 0x4F, CHR 0x48] then
          map_option (Pair True) (cursor_to_start CURSOR_LEFT e)
        else if sq = [CHR 0x1B, CHR 0x4F, CHR 0x46] then
          Some (True, cursor_to_end CURSOR_RIGHT e)
        else Some (False, e)
      } else Some (False, e))"

text \<open>\<^verbatim>\<open>tl_init\<close> zeroes the aggregate and wires the references.  The print sink and its
  user context are the list \<open>printed\<close>.\<close>

definition tl_init :: "config \<Rightarrow> t_token list option \<Rightarrow> (int \<Rightarrow> string) \<Rightarrow> t_tokenline" where
  "tl_init cf tokens_top dict =
     \<lparr>token_levels = (replicate 8 None)[0 := tokens_top],
      token_level = 0,
      token_dict = dict,
      prompt = [],
      callback = False,
      buf = replicate (nat (TL_MAX_LINE_LEN cf)) NUL,
      buf_len = 0,
      escape = replicate (nat (TL_MAX_ESCAPE_LEN cf)) NUL,
      escape_len = 0,
      pos = 0,
      hist_buf = replicate (nat (TL_MAX_HISTORY_SIZE cf)) NUL,
      hist_step = -1,
      hist_begin = 0,
      hist_end = 0,
      parsed = \<lparr>tokens = replicate (parsed_tokens_cap cf) 0,
                pbuf = replicate (parsed_buf_cap cf) NUL,
                last_token_entry = None\<rparr>,
      printed = [],
      calls = []\<rparr>"

definition tl_set_prompt :: "t_tokenline \<Rightarrow> string \<Rightarrow> t_tokenline" where
  "tl_set_prompt e p = print p (e\<lparr>prompt := p\<rparr>)"

definition tl_set_callback :: "t_tokenline \<Rightarrow> t_tokenline" where
  "tl_set_callback e = e\<lparr>callback := True\<rparr>"

text \<open>The two loops of Ctrl-W.\<close>

lemma backspace_measure:
  "backspace e = Some e' \<Longrightarrow> (e', e) \<in> measure (\<lambda>e. nat (pos e))"
  by (auto dest: backspace_pos)

function backspace_while :: "bool \<Rightarrow> t_tokenline \<Rightarrow> t_tokenline option" where
  "backspace_while sp e =
     (if pos e \<noteq> 0 then
        (case rd (buf e) (pos e - 1) of
           None \<Rightarrow> None
         | Some c \<Rightarrow>
             if (c = SPACE) = sp then
               (case backspace e of None \<Rightarrow> None | Some e' \<Rightarrow> backspace_while sp e')
             else Some e)
      else Some e)"
  by pat_completeness auto
termination
  by (relation "measure (\<lambda>(sp, e). nat (pos e))") (auto dest: backspace_pos)

text \<open>\<^verbatim>\<open>tl_input\<close> returns its truth value (\<^verbatim>\<open>TRUE\<close> to continue, \<^verbatim>\<open>FALSE\<close> to exit) and the
  engine.\<close>

definition tl_input :: "config \<Rightarrow> t_tokenline \<Rightarrow> char \<Rightarrow> (bool \<times> t_tokenline) option" where
  "tl_input cf e c =
     (if escape_len e \<noteq> 0 then do {
        esc \<leftarrow> wr (escape e) (escape_len e) c;
        let e1 = e\<lparr>escape := esc, escape_len := escape_len e + 1\<rparr>;
        (r, e2) \<leftarrow> process_escape cf e1;
        Some (True,
              if r then e2\<lparr>escape_len := 0\<rparr>
              else if escape_len e2 = TL_MAX_ESCAPE_LEN cf then e2\<lparr>escape_len := 0\<rparr>
              else e2)
      }
      else if c = CHR 0x1B then do {
        esc \<leftarrow> wr (escape e) (escape_len e) c;
        Some (True, e\<lparr>escape := esc, escape_len := escape_len e + 1\<rparr>)
      }
      else if c = CHR 0x0D \<or> c = CHR 0x0A then map_option (Pair True) (process_line cf e)
      else if c = CHR 0x09 then
        (if buf_len e = pos e then map_option (Pair True) (complete cf e) else Some (True, e))
      else if c = CHR 0x7F then
        (if pos e \<noteq> 0 then map_option (Pair True) (backspace e) else Some (True, e))
      else if c = CHR 0x01 then map_option (Pair True) (cursor_to_start CURSOR_LEFT e)
      else if c = CHR 0x03 then
        map_option (Pair True) (process_line cf ((print ''^C'' e)\<lparr>buf_len := 0\<rparr>))
      else if c = CHR 0x05 then Some (True, cursor_to_end CURSOR_RIGHT e)
      else if c = CHR 0x0B then
        (if buf_len e > pos e then do {
           let n = nat (buf_len e - pos e);
           let e1 = (print_n n CURSOR_LEFT (print_n n [SPACE] e))\<lparr>buf_len := pos e\<rparr>;
           b \<leftarrow> wr (buf e1) (buf_len e1) NUL;
           Some (True, e1\<lparr>buf := b\<rparr>)
         } else Some (True, e))
      else if c = CHR 0x0C then do {
        line \<leftarrow> cstr (buf e) 0;
        Some (True, print line (print (prompt e)
                (print [CHR 0x1B, CHR 0x5B, CHR 0x32, CHR 0x4A, CHR 0x1B, CHR 0x5B, CHR 0x48] e)))
      }
      else if c = CHR 0x10 then map_option (Pair True) (history_up cf e)
      else if c = CHR 0x0E then map_option (Pair True) (history_down cf e)
      else if c = CHR 0x17 then do {
        e1 \<leftarrow> backspace_while True e;
        e2 \<leftarrow> backspace_while False e1;
        Some (True, e2)
      }
      else if c = CHR 0x04 then Some (buf_len e \<noteq> 0, e)
      else if (0x20::nat) \<le> of_char c \<and> of_char c \<le> (0x7E::nat) then do {
        e1 \<leftarrow> (if buf_len e < TL_MAX_LINE_LEN cf - 1 then add_char e c else Some e);
        Some (True, e1\<lparr>hist_step := -1\<rparr>)
      }
      else Some (True, e))"

text \<open>Feeding a sequence of bytes, one \<^verbatim>\<open>tl_input\<close> call for each.\<close>

fun feed :: "config \<Rightarrow> t_tokenline \<Rightarrow> char list \<Rightarrow> t_tokenline option" where
  "feed cf e [] = Some e"
| "feed cf e (c # cs) =
     (case tl_input cf e c of None \<Rightarrow> None | Some (r, e') \<Rightarrow> feed cf e' cs)"

subsection \<open>Line submission\<close>


text \<open>\<open>if_returns m Q\<close>: the result of the call \<open>m\<close>, if there is one, satisfies \<open>Q\<close>.\<close>

definition if_returns :: "'a option \<Rightarrow> ('a \<Rightarrow> bool) \<Rightarrow> bool" where
  "if_returns m Q = (case m of None \<Rightarrow> True | Some x \<Rightarrow> Q x)"

text \<open>\<open>returns m Q\<close>: the call \<open>m\<close> returns, and its result satisfies \<open>Q\<close>.\<close>

definition returns :: "'a option \<Rightarrow> ('a \<Rightarrow> bool) \<Rightarrow> bool" where
  "returns m Q = (case m of None \<Rightarrow> False | Some x \<Rightarrow> Q x)"



text \<open>\<open>keeps e e'\<close>: from \<open>e\<close> to \<open>e'\<close> the grammar, the line, the history ring and the sizes
  of the two arrays of the parse result are the same.\<close>

definition keeps :: "t_tokenline \<Rightarrow> t_tokenline \<Rightarrow> bool" where
  "keeps e e' \<longleftrightarrow>
     token_levels e' = token_levels e \<and> token_level e' = token_level e
     \<and> token_dict e' = token_dict e \<and> buf e' = buf e \<and> buf_len e' = buf_len e
     \<and> hist_buf e' = hist_buf e \<and> hist_begin e' = hist_begin e \<and> hist_end e' = hist_end e
     \<and> length (tokens (parsed e')) = length (tokens (parsed e))
     \<and> length (pbuf (parsed e')) = length (pbuf (parsed e))"

subsection \<open>Example grammar\<close>

definition ex_dict :: "int \<Rightarrow> string" where
  "ex_dict k = (if k = 1 then ''show'' else if k = 2 then ''shutdown'' else if k = 3 then ''sh''
                else if k = 4 then ''set'' else if k = 5 then ''say'' else [])"

definition ex_toks :: "t_token list" where
  "ex_toks = [Token 1 TARG_NONE None None, Token 2 TARG_NONE None None,
     Token 3 TARG_NONE None None, Token 4 TARG_INT None None, Token 5 TARG_STRING None None,
     Token 0 TARG_NONE None None]"


text \<open>A configuration for the examples: a line buffer of 16 bytes, a history ring of 32
  bytes, a host with 64-bit \<^verbatim>\<open>long\<close> and 32-bit little-endian \<^verbatim>\<open>int\<close>.  The model does no
  floating point; \<^verbatim>\<open>strtof\<close> is a stand-in that reads nothing.\<close>

definition le_bytes :: "int \<Rightarrow> char list" where
  "le_bytes v = map (\<lambda>k. char_of ((v mod 4294967296) div (256 ^ k))) [0, 1, 2, 3::nat]"

definition ex_targ :: "argtype \<Rightarrow> int" where
  "ex_targ a = (case a of TARG_NONE \<Rightarrow> 0 | TARG_INT \<Rightarrow> 10001 | TARG_FLOAT \<Rightarrow> 10002
                | TARG_STRING \<Rightarrow> 10003 | TARG_TOKEN \<Rightarrow> 10004 | TARG_HELP \<Rightarrow> 10005)"

definition ex_cfg :: config where
  "ex_cfg = \<lparr>TL_MAX_LINE_LEN = 16, TL_MAX_ESCAPE_LEN = 8, TL_MAX_WORDS = 8,
             TL_MAX_HISTORY_SIZE = 32, parsed_tokens_cap = 16, parsed_buf_cap = 16,
             targ = ex_targ, LONG_MAX = 9223372036854775807, int_repr = le_bytes,
             strtof_bytes = (\<lambda>s. ([NUL, NUL, NUL, NUL], s))\<rparr>"

text \<open>The engine after \<^verbatim>\<open>tl_init\<close>, \<^verbatim>\<open>tl_set_prompt\<close> and \<^verbatim>\<open>tl_set_callback\<close>, and the engine
  after it has received the bytes \<open>bs\<close>.\<close>

definition ex_engine :: t_tokenline where
  "ex_engine = tl_set_callback (tl_set_prompt (tl_init ex_cfg (Some ex_toks) ex_dict) ''> '')"

definition ex_after :: "char list \<Rightarrow> t_tokenline" where
  "ex_after bs = (case feed ex_cfg ex_engine bs of Some e \<Rightarrow> e | None \<Rightarrow> ex_engine)"



subsection \<open>Recording lines and walking the history\<close>

text \<open>
  The history as a line submission reaches it: \<open>load_line e l\<close> is the engine with the line
  \<open>l\<close> in its buffer, and \<open>history_add_all\<close> has \<^verbatim>\<open>history_add\<close> record one line after the
  other.
\<close>

definition load_line :: "t_tokenline \<Rightarrow> string \<Rightarrow> t_tokenline" where
  "load_line e l =
     e\<lparr>buf := l @ NUL # drop (Suc (length l)) (buf e),
       buf_len := int (length l), pos := int (length l)\<rparr>"

fun history_add_all :: "config \<Rightarrow> t_tokenline \<Rightarrow> string list \<Rightarrow> t_tokenline option" where
  "history_add_all cf e [] = Some e"
| "history_add_all cf e (l # ls) =
     (case history_add cf (load_line e l) of
        None \<Rightarrow> None
      | Some e' \<Rightarrow> history_add_all cf e' ls)"

text \<open>
  The walk from \<^verbatim>\<open>hist_end\<close> through \<^verbatim>\<open>history_previous\<close> until it returns -1, as
  \<^verbatim>\<open>history_up\<close> and \<^verbatim>\<open>history_show\<close> make it, collecting the entry at each offset.
  \<open>hist_entry\<close> reads an entry as \<^verbatim>\<open>history_show\<close> prints it: the bytes up to the first NUL,
  continued at offset 0 when the end of the ring comes first.
\<close>

definition hist_entry :: "char list \<Rightarrow> int \<Rightarrow> string" where
  "hist_entry hb entry =
     (let seg = drop (nat entry) hb in
      if NUL \<in> set seg then takeWhile (\<lambda>c. c \<noteq> NUL) seg
      else seg @ takeWhile (\<lambda>c. c \<noteq> NUL) hb)"

partial_function (option) history_walk_from ::
  "config \<Rightarrow> t_tokenline \<Rightarrow> int \<Rightarrow> string list option" where
  "history_walk_from cf e entry =
     (if entry = -1 then Some []
      else do {
        p \<leftarrow> history_previous cf e entry;
        r \<leftarrow> history_walk_from cf e p;
        Some (hist_entry (hist_buf e) entry # r)
      })"

declare history_walk_from.simps [code]

definition history_walk :: "config \<Rightarrow> t_tokenline \<Rightarrow> string list option" where
  "history_walk cf e =
     do {
       p \<leftarrow> history_previous cf e (hist_end e);
       history_walk_from cf e p
     }"

text \<open>The bytes of a list of entries, each with its terminator.\<close>

definition ring_bytes :: "string list \<Rightarrow> char list" where
  "ring_bytes es = concat (map (\<lambda>l. l @ [NUL]) es)"


text \<open>The ring holds the entries \<open>es\<close> from offset 0 on, oldest first, followed by zero
  bytes, of which there is at least one.\<close>

definition linear_ring :: "config \<Rightarrow> t_tokenline \<Rightarrow> string list \<Rightarrow> bool" where
  "linear_ring cf e es \<longleftrightarrow>
     TL_MAX_HISTORY_SIZE cf = int (length (hist_buf e))
     \<and> length (ring_bytes es) < length (hist_buf e)
     \<and> hist_buf e = ring_bytes es @ replicate (length (hist_buf e) - length (ring_bytes es)) NUL
     \<and> hist_begin e = 0 \<and> hist_end e = int (length (ring_bytes es))"


subsection \<open>Example predicates and inputs\<close>

text \<open>
  The newest history entry is displayed: \<^verbatim>\<open>hist_step\<close> is the offset of a non-empty entry
  that lies in the ring without wrapping, \<^verbatim>\<open>hist_end\<close> is the offset after its terminator,
  and the ring is free there.
\<close>

definition newest_shown :: "config \<Rightarrow> t_tokenline \<Rightarrow> bool" where
  "newest_shown cf e =
     (case cstr (hist_buf e) (hist_step e) of
        None \<Rightarrow> False
      | Some s \<Rightarrow>
          s \<noteq> [] \<and> hist_step e + int (length s) < TL_MAX_HISTORY_SIZE cf
          \<and> hist_end e = hist_inc cf (hist_step e + int (length s))
          \<and> rd (hist_buf e) (hist_end e) = Some NUL)"

text \<open>The current line, and \<^verbatim>\<open>split_line\<close> (silent) followed by \<^verbatim>\<open>unsplit_line\<close>.\<close>

definition line :: "t_tokenline \<Rightarrow> string" where
  "line e = take (nat (buf_len e)) (buf e)"

definition split_then_unsplit :: "config \<Rightarrow> t_tokenline \<Rightarrow> (bool \<times> t_tokenline) option" where
  "split_then_unsplit cf e =
     do {
       (ok, ws, e1) \<leftarrow> split_line cf e True;
       e2 \<leftarrow> unsplit_line e1;
       Some (ok, e2)
     }"

text \<open>Input lines for the examples: a quote inside an unquoted word, a line that fills the
  buffer and ends in a prefix of \<^verbatim>\<open>show\<close>, a command with a string argument followed by the
  start of another word, and a submitted line followed by the up arrow.\<close>

definition ex_quote_line :: string where
  "ex_quote_line = [CHR ''a'', DQUOTE, CHR ''b'', SPACE, CHR ''c'']"

definition ex_full_line :: string where
  "ex_full_line = replicate 12 SPACE @ ''sho''"

definition ex_say_line :: string where
  "ex_say_line = ''say a'' @ [DQUOTE] @ ''b s''"

definition ex_up :: "char list" where "ex_up = ''aaaa'' @ [CHR 0x0D, CHR 0x1B, CHR 0x5B, CHR 0x41]"

text \<open>The engine after it has received the bytes \<open>bs\<close> and \<^verbatim>\<open>split_line\<close> has split the
  line.\<close>

definition ex_split :: "char list \<Rightarrow> t_tokenline" where
  "ex_split bs = (case split_line ex_cfg (ex_after bs) False of
                    Some (ok, ws, e) \<Rightarrow> e | None \<Rightarrow> ex_engine)"

text \<open>Lines for the history examples: three lines of 21 bytes in all, and two lines
  that fill the ring of 32 bytes exactly.\<close>

definition ex_lines :: "string list" where
  "ex_lines = [''aaaa'', ''bbbb'', ''cccccccccc'']"

definition ex_lines_full :: "string list" where
  "ex_lines_full = [''aaaaaaaaaaaaaaa'', ''bbbbbbbbbbbbbbb'']"

text \<open>Lines that go past the capacity of the ring of 32 bytes: three lines of 16 bytes
  with their terminators, and nine lines of 4 bytes.\<close>

definition ex_lines_over :: "string list" where
  "ex_lines_over = [''aaaaaaaaaaaaaaa'', ''bbbbbbbbbbbbbbb'', ''ccccccccccccccc'']"

definition ex_lines_small :: "string list" where
  "ex_lines_small = [''aaa'', ''bbb'', ''ccc'', ''ddd'', ''eee'', ''fff'', ''ggg'', ''hhh'', ''iii'']"

section \<open>Properties\<close>

subsection \<open>Token matching\<close>

lemma names_Nil [simp]: "names dict [] = []"
  by (simp add: names_def entries_def)

lemma names_Cons:
  "names dict (t # ts) = (if token t = 0 then [] else dict (token t) # names dict ts)"
  by (simp add: names_def entries_def)

lemma strict_prefix_take:
  "strict_prefix w s \<longleftrightarrow> \<not> length s \<le> length w \<and> take (length w) s = w"
  by (metis append_eq_conv_conj append_take_drop_id linorder_not_le prefix_def prefix_length_less strict_prefix_def take_all_iff)

lemma find_exact_None:
  "find_exact dict w i toks = None \<longleftrightarrow> w \<notin> set (names dict toks)"
  by (induction toks arbitrary: i) (auto simp: names_Cons)

lemma find_exact_Some:
  "find_exact dict w i toks = Some r \<Longrightarrow>
     \<exists>k. r = i + int k \<and> k < length (names dict toks) \<and> names dict toks ! k = w
        \<and> (\<forall>j<k. names dict toks ! j \<noteq> w)"
proof (induction toks arbitrary: i)
  case Nil then show ?case by simp
next
  case (Cons t ts)
  show ?case
  proof (cases "token t = 0")
    case True with Cons.prems show ?thesis by simp
  next
    case nz: False
    show ?thesis
    proof (cases "w = dict (token t)")
      case True
      with nz Cons.prems have "r = i" by simp
      with nz True show ?thesis by (intro exI[of _ 0]) (simp add: names_Cons)
    next
      case False
      with nz Cons.prems have "find_exact dict w (i + 1) ts = Some r" by simp
      from Cons.IH[OF this] obtain k where k: "r = i + 1 + int k" "k < length (names dict ts)"
        "names dict ts ! k = w" "\<forall>j<k. names dict ts ! j \<noteq> w" by blast
      show ?thesis
      proof (intro exI[of _ "Suc k"] conjI allI impI)
        fix j assume "j < Suc k"
        then show "names dict (t # ts) ! j \<noteq> w"
          using k(4) False nz by (cases j) (auto simp: names_Cons)
      qed (use k nz in \<open>auto simp: names_Cons\<close>)
    qed
  qed
qed

lemma find_partial_none:
  "\<forall>s\<in>set (names dict toks). \<not> strict_prefix w s \<Longrightarrow> find_partial dict w i p toks = p"
  by (induction toks arbitrary: i p) (auto simp: names_Cons strict_prefix_take split: if_splits)

lemma find_partial_taken:
  "p \<noteq> -1 \<Longrightarrow> \<exists>s\<in>set (names dict toks). strict_prefix w s \<Longrightarrow>
     find_partial dict w i p toks = -1"
  by (induction toks arbitrary: i) (auto simp: names_Cons strict_prefix_take split: if_splits)

lemma find_partial_one:
  "0 \<le> i \<Longrightarrow> k < length (names dict toks) \<Longrightarrow> strict_prefix w (names dict toks ! k) \<Longrightarrow>
   \<forall>j<length (names dict toks). strict_prefix w (names dict toks ! j) \<longrightarrow> j = k \<Longrightarrow>
     find_partial dict w i (-1) toks = i + int k"
proof (induction toks arbitrary: i k)
  case Nil then show ?case by simp
next
  case (Cons t ts)
  from Cons.prems(2) have nz: "token t \<noteq> 0" by (auto simp: names_Cons split: if_splits)
  then have nm: "names dict (t # ts) = dict (token t) # names dict ts" by (simp add: names_Cons)
  show ?case
  proof (cases k)
    case 0
    with Cons.prems nm have sp: "strict_prefix w (dict (token t))" by simp
    have "\<forall>s\<in>set (names dict ts). \<not> strict_prefix w s"
    proof
      fix s assume "s \<in> set (names dict ts)"
      then obtain j where "j < length (names dict ts)" "names dict ts ! j = s"
        by (auto simp: in_set_conv_nth)
      with Cons.prems(4)[rule_format, of "Suc j"] 0 nm show "\<not> strict_prefix w s" by auto
    qed
    then have "find_partial dict w (i + 1) i ts = i" by (rule find_partial_none)
    with sp nz 0 Cons.prems(1) show ?thesis by (auto simp: strict_prefix_take)
  next
    case (Suc k')
    have nsp: "\<not> strict_prefix w (dict (token t))"
      using Cons.prems(4)[rule_format, of 0] Suc nm by auto
    have "find_partial dict w (i + 1) (-1) ts = i + 1 + int k'"
    proof (rule Cons.IH)
      show "\<forall>j<length (names dict ts). strict_prefix w (names dict ts ! j) \<longrightarrow> j = k'"
        using Cons.prems(4) Suc nm by (metis Suc_less_eq length_Cons nat.inject nth_Cons_Suc)
    qed (use Cons.prems Suc nm in auto)
    with nsp nz Suc show ?thesis by (auto simp: strict_prefix_take)
  qed
qed

lemma find_partial_two:
  "0 \<le> i \<Longrightarrow> j < k \<Longrightarrow> k < length (names dict toks) \<Longrightarrow> strict_prefix w (names dict toks ! j) \<Longrightarrow>
   strict_prefix w (names dict toks ! k) \<Longrightarrow> find_partial dict w i (-1) toks = -1"
proof (induction toks arbitrary: i j k)
  case Nil then show ?case by simp
next
  case (Cons t ts)
  from Cons.prems(3) have nz: "token t \<noteq> 0" by (auto simp: names_Cons split: if_splits)
  then have nm: "names dict (t # ts) = dict (token t) # names dict ts" by (simp add: names_Cons)
  obtain k' where k': "k = Suc k'" using Cons.prems(2) by (cases k) auto
  show ?case
  proof (cases "strict_prefix w (dict (token t))")
    case True
    have "\<exists>s\<in>set (names dict ts). strict_prefix w s"
      using Cons.prems k' nm by (auto intro!: bexI[of _ "names dict ts ! k'"])
    with find_partial_taken[of i dict ts w "i + 1"] Cons.prems(1)
    have "find_partial dict w (i + 1) i ts = -1" by auto
    with True nz show ?thesis by (auto simp: strict_prefix_take)
  next
    case False
    then obtain j' where j': "j = Suc j'" using Cons.prems(4) nm by (cases j) auto
    have "find_partial dict w (i + 1) (-1) ts = -1"
      by (rule Cons.IH[of _ j' k']) (use Cons.prems j' k' nm in auto)
    with False nz show ?thesis by (auto simp: strict_prefix_take)
  qed
qed

lemma find_token_exact:
  assumes "i < length (names dict toks)" "names dict toks ! i = w"
    "\<forall>j<length (names dict toks). names dict toks ! j = w \<longrightarrow> j = i"
  shows "find_token toks dict w = int i"
proof -
  from assms have "w \<in> set (names dict toks)" by (auto simp: in_set_conv_nth)
  then obtain r where r: "find_exact dict w 0 toks = Some r"
    using find_exact_None[of dict w 0 toks] by auto
  from find_exact_Some[OF r] obtain k where "r = int k" "k < length (names dict toks)"
    "names dict toks ! k = w" by auto
  with assms have "r = int i" by auto
  with r show ?thesis by (simp add: find_token_def)
qed

lemma find_token_prefix:
  assumes "i < length (names dict toks)" "w \<notin> set (names dict toks)"
    "strict_prefix w (names dict toks ! i)"
    "\<forall>j<length (names dict toks). strict_prefix w (names dict toks ! j) \<longrightarrow> j = i"
  shows "find_token toks dict w = int i"
proof -
  have "find_exact dict w 0 toks = None" using assms(2) by (simp add: find_exact_None)
  moreover have "find_partial dict w 0 (-1) toks = 0 + int i"
    using find_partial_one[OF _ assms(1,3,4), of 0] by simp
  ultimately show ?thesis by (simp add: find_token_def)
qed

lemma find_partial_ambiguous:
  assumes "i < length (names dict toks)" "j < length (names dict toks)" "i \<noteq> j"
    "strict_prefix w (names dict toks ! i)" "strict_prefix w (names dict toks ! j)"
  shows "find_partial dict w 0 (-1) toks = -1"
proof (cases "i < j")
  case True
  then show ?thesis using find_partial_two[of 0 i j dict toks w] assms by simp
next
  case False
  with assms(3) have "j < i" by simp
  then show ?thesis using find_partial_two[of 0 j i dict toks w] assms by simp
qed

lemma find_token_fail:
  assumes "w \<notin> set (names dict toks)"
    "\<not> (\<exists>!i. i < length (names dict toks) \<and> strict_prefix w (names dict toks ! i))"
  shows "find_token toks dict w = -1"
proof -
  have ex: "find_exact dict w 0 toks = None" using assms(1) by (simp add: find_exact_None)
  have "find_partial dict w 0 (-1) toks = -1"
  proof (cases "\<exists>i<length (names dict toks). strict_prefix w (names dict toks ! i)")
    case False
    then have "\<forall>s\<in>set (names dict toks). \<not> strict_prefix w s"
      by (auto simp: in_set_conv_nth)
    then show ?thesis by (rule find_partial_none)
  next
    case True
    then obtain i where i: "i < length (names dict toks)" "strict_prefix w (names dict toks ! i)"
      by blast
    with assms(2) obtain j where j: "j < length (names dict toks)"
      "strict_prefix w (names dict toks ! j)" "j \<noteq> i" by blast
    show ?thesis using find_partial_ambiguous[OF i(1) j(1) _ i(2) j(2)] j(3) by simp
  qed
  with ex show ?thesis by (simp add: find_token_def)
qed

lemma find_token_sound:
  assumes nf: "find_token toks dict w \<noteq> -1"
  shows "0 \<le> find_token toks dict w \<and> find_token toks dict w < int (length (names dict toks))
        \<and> (names dict toks ! nat (find_token toks dict w) = w
             \<or> strict_prefix w (names dict toks ! nat (find_token toks dict w)))"
proof (cases "find_exact dict w 0 toks")
  case (Some r)
  from find_exact_Some[OF Some] obtain k where "r = int k" "k < length (names dict toks)"
    "names dict toks ! k = w" by auto
  with Some show ?thesis by (simp add: find_token_def)
next
  case None
  then have nin: "w \<notin> set (names dict toks)" by (simp add: find_exact_None)
  have "\<exists>!i. i < length (names dict toks) \<and> strict_prefix w (names dict toks ! i)"
    using find_token_fail[OF nin] nf by blast
  then obtain i where i: "i < length (names dict toks)" "strict_prefix w (names dict toks ! i)"
    "\<forall>j<length (names dict toks). strict_prefix w (names dict toks ! j) \<longrightarrow> j = i"
    by blast
  have r: "find_token toks dict w = int i"
    by (rule find_token_prefix[OF i(1) nin i(2) i(3)])
  show ?thesis unfolding r using i(1,2) by simp
qed

text \<open>
  Claim C3.  For a token list \<open>toks\<close> and a word \<open>w\<close>, with \<open>names dict toks\<close> the display
  strings of the entries before the sentinel: \<^verbatim>\<open>find_token\<close> returns the index of the unique
  entry whose display string equals \<open>w\<close>, wherever it stands and whatever else \<open>w\<close> is a
  prefix of; with no equal entry, it returns the index of the one entry of which \<open>w\<close> is a
  strict prefix, when there is exactly one; with no equal entry and none or several such
  entries it returns -1; and whatever it returns other than -1 is the index of an entry
  that equals \<open>w\<close> or strictly extends it.
\<close>

theorem find_token_spec:
  "(\<forall>i<length (names dict toks).
       names dict toks ! i = w \<and> (\<forall>j<length (names dict toks). names dict toks ! j = w \<longrightarrow> j = i)
       \<longrightarrow> find_token toks dict w = int i)
   \<and> (\<forall>i<length (names dict toks).
       w \<notin> set (names dict toks) \<and> strict_prefix w (names dict toks ! i)
       \<and> (\<forall>j<length (names dict toks). strict_prefix w (names dict toks ! j) \<longrightarrow> j = i)
       \<longrightarrow> find_token toks dict w = int i)
   \<and> (w \<notin> set (names dict toks)
       \<and> \<not> (\<exists>!i. i < length (names dict toks) \<and> strict_prefix w (names dict toks ! i))
       \<longrightarrow> find_token toks dict w = -1)
   \<and> (find_token toks dict w \<noteq> -1 \<longrightarrow>
        0 \<le> find_token toks dict w \<and> find_token toks dict w < int (length (names dict toks))
        \<and> (names dict toks ! nat (find_token toks dict w) = w
           \<or> strict_prefix w (names dict toks ! nat (find_token toks dict w))))"
proof -
  have a: "\<forall>i<length (names dict toks).
       names dict toks ! i = w \<and> (\<forall>j<length (names dict toks). names dict toks ! j = w \<longrightarrow> j = i)
       \<longrightarrow> find_token toks dict w = int i"
  proof (intro allI impI, elim conjE)
    fix i assume "i < length (names dict toks)" "names dict toks ! i = w"
      "\<forall>j<length (names dict toks). names dict toks ! j = w \<longrightarrow> j = i"
    then show "find_token toks dict w = int i" by (rule find_token_exact)
  qed
  have b: "\<forall>i<length (names dict toks).
       w \<notin> set (names dict toks) \<and> strict_prefix w (names dict toks ! i)
       \<and> (\<forall>j<length (names dict toks). strict_prefix w (names dict toks ! j) \<longrightarrow> j = i)
       \<longrightarrow> find_token toks dict w = int i"
  proof (intro allI impI, elim conjE)
    fix i assume "i < length (names dict toks)" "w \<notin> set (names dict toks)"
      "strict_prefix w (names dict toks ! i)"
      "\<forall>j<length (names dict toks). strict_prefix w (names dict toks ! j) \<longrightarrow> j = i"
    then show "find_token toks dict w = int i" by (rule find_token_prefix)
  qed
  have c: "w \<notin> set (names dict toks)
       \<and> \<not> (\<exists>!i. i < length (names dict toks) \<and> strict_prefix w (names dict toks ! i))
       \<longrightarrow> find_token toks dict w = -1"
  proof (intro impI, elim conjE)
    assume "w \<notin> set (names dict toks)"
      "\<not> (\<exists>!i. i < length (names dict toks) \<and> strict_prefix w (names dict toks ! i))"
    then show "find_token toks dict w = -1" by (rule find_token_fail)
  qed
  have d: "find_token toks dict w \<noteq> -1 \<longrightarrow>
        0 \<le> find_token toks dict w \<and> find_token toks dict w < int (length (names dict toks))
        \<and> (names dict toks ! nat (find_token toks dict w) = w
           \<or> strict_prefix w (names dict toks ! nat (find_token toks dict w)))"
    by (intro impI) (rule find_token_sound)
  from a b c d show ?thesis by (intro conjI)
qed


lemma ex_names: "names ex_dict ex_toks = [''show'', ''shutdown'', ''sh'', ''set'', ''say'']"
  by (simp add: names_def entries_def ex_toks_def ex_dict_def)

theorem find_token_spec_witness:
  "find_token ex_toks ex_dict ''sh'' = 2 \<and> find_token ex_toks ex_dict ''se'' = 3
   \<and> find_token ex_toks ex_dict ''s'' = -1 \<and> find_token ex_toks ex_dict ''sho'' \<noteq> -1"
proof -
  note T = find_token_spec[of ex_dict ex_toks]
  have a1: "(2::nat) < length (names ex_dict ex_toks)" by (simp add: ex_names)
  have a2: "names ex_dict ex_toks ! 2 = ''sh'' \<and>
     (\<forall>j<length (names ex_dict ex_toks). names ex_dict ex_toks ! j = ''sh'' \<longrightarrow> j = 2)"
    unfolding ex_names by (simp add: All_less_Suc)
  have a: "find_token ex_toks ex_dict ''sh'' = int 2"
    by (rule T[THEN conjunct1, rule_format, OF a1 a2])
  have b1: "(3::nat) < length (names ex_dict ex_toks)" by (simp add: ex_names)
  have b2: "''se'' \<notin> set (names ex_dict ex_toks) \<and> strict_prefix ''se'' (names ex_dict ex_toks ! 3)
     \<and> (\<forall>j<length (names ex_dict ex_toks). strict_prefix ''se'' (names ex_dict ex_toks ! j) \<longrightarrow> j = 3)"
    unfolding ex_names by (simp add: All_less_Suc strict_prefix_def)
  have b: "find_token ex_toks ex_dict ''se'' = int 3"
    by (rule T[THEN conjunct2, THEN conjunct1, rule_format, OF b1 b2])
  have c1: "''s'' \<notin> set (names ex_dict ex_toks)" by (simp add: ex_names)
  have c2: "\<not> (\<exists>!i. i < length (names ex_dict ex_toks) \<and> strict_prefix ''s'' (names ex_dict ex_toks ! i))"
  proof
    assume "\<exists>!i. i < length (names ex_dict ex_toks) \<and> strict_prefix ''s'' (names ex_dict ex_toks ! i)"
    then have "\<And>i j. i < length (names ex_dict ex_toks) \<and> strict_prefix ''s'' (names ex_dict ex_toks ! i)
       \<Longrightarrow> j < length (names ex_dict ex_toks) \<and> strict_prefix ''s'' (names ex_dict ex_toks ! j) \<Longrightarrow> i = j"
      by blast
    from this[of 0 1] show False unfolding ex_names by (simp add: strict_prefix_def)
  qed
  have c: "find_token ex_toks ex_dict ''s'' = -1"
    by (rule T[THEN conjunct2, THEN conjunct2, THEN conjunct1, rule_format, OF conjI[OF c1 c2]])
  have d: "find_token ex_toks ex_dict ''sho'' \<noteq> -1"
    by (simp add: find_token_def ex_toks_def ex_dict_def)
  from a b c d show ?thesis by simp
qed

subsection \<open>Ctrl-D\<close>

text \<open>
  Claim C5.  With no escape sequence in progress, the byte 0x04 makes \<^verbatim>\<open>tl_input\<close> return
  \<^verbatim>\<open>FALSE\<close> (exit) exactly when \<^verbatim>\<open>buf_len\<close> is 0 and \<^verbatim>\<open>TRUE\<close> (continue) otherwise; in both
  cases the engine it leaves is the engine it received, so that no field has changed and
  nothing has gone to the print sink.
\<close>

theorem ctrl_d_exits_iff_empty:
  "escape_len e = 0 \<Longrightarrow> tl_input cf e (CHR 0x04) = Some (buf_len e \<noteq> 0, e)"
  unfolding tl_input_def by (simp only: if_False if_True simp_thms char.inject)


theorem ctrl_d_exits_iff_empty_witness:
  "escape_len (ex_after ''abc'') = 0
   \<and> tl_input ex_cfg (ex_after ''abc'') (CHR 0x04) = Some (True, ex_after ''abc'')
   \<and> escape_len ex_engine = 0
   \<and> tl_input ex_cfg ex_engine (CHR 0x04) = Some (False, ex_engine)"
proof -
  have a: "escape_len (ex_after ''abc'') = 0" by code_simp
  have b: "buf_len (ex_after ''abc'') = 3" by code_simp
  have c: "escape_len ex_engine = 0" by code_simp
  have d: "buf_len ex_engine = 0" by code_simp
  show ?thesis
    using ctrl_d_exits_iff_empty[OF a, of ex_cfg] ctrl_d_exits_iff_empty[OF c, of ex_cfg] a c
    by (simp add: b d)
qed

subsection \<open>Backspace\<close>

lemma cstr_Some_iff:
  "0 \<le> off \<Longrightarrow> nat off \<le> k \<Longrightarrow> k < length xs \<Longrightarrow> xs ! k = NUL \<Longrightarrow> cstr xs off \<noteq> None"
proof -
  assume a: "0 \<le> off" "nat off \<le> k" "k < length xs" "xs ! k = NUL"
  have "k - nat off < length (drop (nat off) xs)" using a by simp
  then have "drop (nat off) xs ! (k - nat off) \<in> set (drop (nat off) xs)" by (rule nth_mem)
  moreover have "drop (nat off) xs ! (k - nat off) = xs ! k" using a by simp
  ultimately have "NUL \<in> set (drop (nat off) xs)" using a(4) by simp
  with a show ?thesis by (simp add: cstr_def)
qed

lemma backspace_at_end:
  assumes "pos e = buf_len e" "0 < pos e" "buf_len e \<le> int (length (buf e))"
  shows "\<exists>e'. backspace e = Some e' \<and> buf_len e' = buf_len e - 1 \<and> pos e' = pos e - 1
     \<and> buf e' = (buf e)[nat (buf_len e - 1) := NUL] \<and> length (buf e') = length (buf e)"
  using assms by (simp add: backspace_def wr_def print_def)

lemma backspace_inside:
  assumes "pos e \<noteq> buf_len e" "0 < pos e" "pos e \<le> buf_len e" "buf_len e < int (length (buf e))"
    "buf e ! nat (buf_len e) = NUL"
  shows "\<exists>e'. backspace e = Some e' \<and> buf_len e' = buf_len e - 1 \<and> pos e' = pos e - 1
     \<and> buf e' = take (nat (pos e) - 1) (buf e)
                 @ take (Suc (nat (buf_len e) - nat (pos e))) (drop (nat (pos e)) (buf e))
                 @ drop (nat (buf_len e)) (buf e)
     \<and> length (buf e') = length (buf e)"
proof -
  define p n where "p = nat (pos e)" and "n = nat (buf_len e)"
  have pn: "pos e = int p" "buf_len e = int n" "0 < p" "p < n" "n < length (buf e)"
    using assms by (auto simp: p_def n_def)
  let ?tail = "take (Suc (n - p)) (drop p (buf e))"
  let ?b = "take (p - 1) (buf e) @ ?tail @ drop n (buf e)"
  have f1: "nat (int n - int p + 1) = Suc (n - p)" using pn by linarith
  have f2: "nat (int p - 1) = p - 1" using pn by linarith
  have sl: "slice (buf e) (pos e) (buf_len e - pos e + 1) = Some ?tail"
    using pn by (simp add: slice_def f1)
  have lt: "length ?tail = Suc (n - p)" using pn by simp
  have "p - 1 + Suc (n - p) = n" using pn by linarith
  then have bl: "blit (buf e) (pos e - 1) ?tail = Some ?b"
    using pn lt by (simp add: blit_def f2 del: length_take take_Suc)
  have len: "length ?b = length (buf e)" using pn by simp
  have np: "\<not> n - 1 < p - 1" "n - 1 - (p - 1) = n - p" "n - p < Suc (n - p)"
    using pn by linarith+
  have "?b ! (n - 1) = (?tail @ drop n (buf e)) ! (n - 1 - (p - 1))"
    using pn np(1) by (simp add: nth_append del: take_Suc)
  also have "\<dots> = ?tail ! (n - p)"
    unfolding np(2) using lt np(3) by (simp add: nth_append del: take_Suc)
  also have "\<dots> = buf e ! n" using pn by (simp del: take_Suc)
  finally have nul: "?b ! (n - 1) = NUL" using assms(5) by (simp add: n_def)
  have "cstr ?b (pos e - 1) \<noteq> None"
    by (rule cstr_Some_iff[where k="n - 1"]) (use pn nul len in \<open>auto simp: f2\<close>)
  then obtain str where "cstr ?b (pos e - 1) = Some str" by blast
  with sl bl assms(1) len show ?thesis
    by (simp add: backspace_def print_def print_n_def p_def n_def del: take_Suc)
qed

text \<open>
  Claim C2, as the code has it.  In a state with the cursor past the start and at most at
  the end of a line that is terminated inside the buffer, and with no escape sequence in
  progress, the byte 0x7F deletes the character left of the cursor: \<^verbatim>\<open>buf_len\<close> and \<^verbatim>\<open>pos\<close>
  go down by one, the line is the old line without the byte at \<^verbatim>\<open>pos - 1\<close>, and it is
  terminated.  The byte 0x08 is not bound: \<^verbatim>\<open>tl_input\<close> returns with the engine unchanged.
\<close>

theorem backspace_key:
  assumes "escape_len e = 0" "0 < pos e" "pos e \<le> buf_len e"
    "buf_len e < int (length (buf e))" "buf e ! nat (buf_len e) = NUL"
  shows "(\<exists>e'. tl_input cf e (CHR 0x7F) = Some (True, e')
            \<and> buf_len e' = buf_len e - 1 \<and> pos e' = pos e - 1
            \<and> take (nat (buf_len e')) (buf e')
                = take (nat (pos e - 1)) (buf e) @ drop (nat (pos e)) (take (nat (buf_len e)) (buf e))
            \<and> buf e' ! nat (buf_len e') = NUL)
       \<and> tl_input cf e (CHR 0x08) = Some (True, e)"
proof
  show "tl_input cf e (CHR 0x08) = Some (True, e)"
    using assms(1) unfolding tl_input_def
    by (simp only: if_False if_True simp_thms char.inject of_char_Char)
      (simp add: numeral_eq_Suc)
  have ti: "tl_input cf e (CHR 0x7F) = map_option (Pair True) (backspace e)"
    using assms(1,2) unfolding tl_input_def
    by (simp only: if_False if_True simp_thms char.inject) simp
  show "\<exists>e'. tl_input cf e (CHR 0x7F) = Some (True, e')
            \<and> buf_len e' = buf_len e - 1 \<and> pos e' = pos e - 1
            \<and> take (nat (buf_len e')) (buf e')
                = take (nat (pos e - 1)) (buf e) @ drop (nat (pos e)) (take (nat (buf_len e)) (buf e))
            \<and> buf e' ! nat (buf_len e') = NUL"
  proof (cases "pos e = buf_len e")
    case True
    from backspace_at_end[OF True assms(2)] assms(4) obtain e' where e': "backspace e = Some e'"
      "buf_len e' = buf_len e - 1" "pos e' = pos e - 1" "buf e' = (buf e)[nat (buf_len e - 1) := NUL]"
      by auto
    have "take (nat (buf_len e - 1)) ((buf e)[nat (buf_len e - 1) := NUL])
        = take (nat (pos e - 1)) (buf e) @ drop (nat (pos e)) (take (nat (buf_len e)) (buf e))"
      using True by simp
    moreover have "(buf e)[nat (buf_len e - 1) := NUL] ! nat (buf_len e - 1) = NUL"
      using assms by simp
    ultimately show ?thesis using e' ti by simp
  next
    case False
    define p n where "p = nat (pos e)" and "n = nat (buf_len e)"
    have pn: "pos e = int p" "buf_len e = int n" "0 < p" "p < n" "n < length (buf e)"
      using assms False by (auto simp: p_def n_def)
    from backspace_inside[OF False assms(2,3,4,5)] obtain e' where e': "backspace e = Some e'"
      "buf_len e' = buf_len e - 1" "pos e' = pos e - 1"
      "buf e' = take (p - 1) (buf e) @ take (Suc (n - p)) (drop p (buf e)) @ drop n (buf e)"
      by (auto simp: p_def n_def)
    have f2: "nat (int p - 1) = p - 1" "nat (int n - 1) = n - 1" using pn by linarith+
    define X T D where "X = take (p - 1) (buf e)" and "T = take (Suc (n - p)) (drop p (buf e))"
      and "D = drop n (buf e)"
    have l1: "length X = p - 1" using pn by (simp add: X_def)
    have l2: "length T = Suc (n - p)" using pn by (simp add: T_def)
    have be: "buf e' = X @ T @ D" using e'(4) by (simp add: X_def T_def D_def)
    have np: "n - 1 - (p - 1) = n - p" "p - 1 \<le> n - 1" "n - p < Suc (n - p)"
      using pn by linarith+
    have "take (n - 1) (buf e') = X @ take (n - p) (T @ D)"
      unfolding be using l1 np by simp
    also have "take (n - p) (T @ D) = take (n - p) T" using l2 by simp
    also have "\<dots> = take (n - p) (drop p (buf e))"
      unfolding T_def by (simp add: min_def del: take_Suc)
    also have "\<dots> = drop p (take n (buf e))"
      using pn by (simp add: drop_take)
    finally have a: "take (n - 1) (buf e')
        = take (p - 1) (buf e) @ drop p (take n (buf e))" by (simp add: X_def)
    have "buf e' ! (n - 1) = (T @ D) ! (n - p)"
      unfolding be using l1 np by (simp add: nth_append)
    also have "\<dots> = T ! (n - p)" using l2 by (simp add: nth_append)
    also have "\<dots> = buf e ! n" unfolding T_def using pn by (simp del: take_Suc)
    finally have b: "buf e' ! (n - 1) = NUL" using assms(5) by (simp add: n_def)
    from a b e' ti show ?thesis by (simp add: pn f2)
  qed
qed


theorem backspace_key_witness:
  "(\<exists>e'. tl_input ex_cfg (ex_after ''abc'') (CHR 0x7F) = Some (True, e')
         \<and> buf_len e' = 2 \<and> pos e' = 2 \<and> take 2 (buf e') = ''ab'' \<and> buf e' ! 2 = NUL)
   \<and> tl_input ex_cfg (ex_after ''abc'') (CHR 0x08) = Some (True, ex_after ''abc'')"
proof -
  have h: "escape_len (ex_after ''abc'') = 0" "0 < pos (ex_after ''abc'')"
    "pos (ex_after ''abc'') \<le> buf_len (ex_after ''abc'')"
    "buf_len (ex_after ''abc'') < int (length (buf (ex_after ''abc'')))"
    "buf (ex_after ''abc'') ! nat (buf_len (ex_after ''abc'')) = NUL"
    by code_simp+
  have v: "buf_len (ex_after ''abc'') - 1 = 2" "pos (ex_after ''abc'') - 1 = 2"
    "take (nat (pos (ex_after ''abc'') - 1)) (buf (ex_after ''abc''))
       @ drop (nat (pos (ex_after ''abc'')))
           (take (nat (buf_len (ex_after ''abc''))) (buf (ex_after ''abc''))) = ''ab''"
    by code_simp+
  from backspace_key[OF h, of ex_cfg] obtain e' where
    e': "tl_input ex_cfg (ex_after ''abc'') (CHR 0x7F) = Some (True, e')"
      "buf_len e' = buf_len (ex_after ''abc'') - 1" "pos e' = pos (ex_after ''abc'') - 1"
      "take (nat (buf_len e')) (buf e')
        = take (nat (pos (ex_after ''abc'') - 1)) (buf (ex_after ''abc''))
          @ drop (nat (pos (ex_after ''abc'')))
              (take (nat (buf_len (ex_after ''abc''))) (buf (ex_after ''abc'')))"
      "buf e' ! nat (buf_len e') = NUL"
    and z: "tl_input ex_cfg (ex_after ''abc'') (CHR 0x08) = Some (True, ex_after ''abc'')"
    by blast
  have n2: "nat (buf_len e') = 2" using e'(2) v(1) by simp
  have "take 2 (buf e') = ''ab''" using e'(4) unfolding n2 v(3) .
  moreover have "buf e' ! 2 = NUL" using e'(5) unfolding n2 .
  ultimately show ?thesis using e'(1,2,3) v(1,2) z by auto
qed

text \<open>Claim C2 as stated fails for the byte 0x08: with the line \<^verbatim>\<open>abc\<close> and the cursor at
  its end, \<^verbatim>\<open>buf_len\<close> and \<^verbatim>\<open>pos\<close> are 3 before and after.\<close>

theorem backspace_0x08_counterexample:
  "escape_len (ex_after ''abc'') = 0 \<and> pos (ex_after ''abc'') = 3
   \<and> buf_len (ex_after ''abc'') = 3
   \<and> map_option (buf_len \<circ> snd) (tl_input ex_cfg (ex_after ''abc'') (CHR 0x08)) = Some 3
   \<and> map_option (pos \<circ> snd) (tl_input ex_cfg (ex_after ''abc'') (CHR 0x08)) = Some 3"
  by code_simp

subsection \<open>Splitting and unsplitting\<close>

text \<open>
  Claim C1 at the line \<^verbatim>\<open>a"b c\<close>, which the engine holds after receiving these five bytes:
  \<^verbatim>\<open>split_line\<close> accepts it, and \<^verbatim>\<open>unsplit_line\<close> then leaves \<^verbatim>\<open>a"b"c\<close> in the buffer.  The
  quote inside the unquoted word sets the flag \<^verbatim>\<open>quoted\<close> of \<^verbatim>\<open>unsplit_line\<close>, so that the NUL
  that \<^verbatim>\<open>split_line\<close> wrote over the space comes back as a quote.
\<close>

theorem split_unsplit_changes_line:
  "line (ex_after ex_quote_line) = [CHR ''a'', DQUOTE, CHR ''b'', SPACE, CHR ''c'']
   \<and> map_option fst (split_then_unsplit ex_cfg (ex_after ex_quote_line)) = Some True
   \<and> map_option (line \<circ> snd) (split_then_unsplit ex_cfg (ex_after ex_quote_line))
       = Some [CHR ''a'', DQUOTE, CHR ''b'', DQUOTE, CHR ''c'']"
  by code_simp

subsection \<open>The bounds of the line buffer\<close>

text \<open>
  Claim C4 at the input of twelve spaces, \<^verbatim>\<open>sho\<close> and TAB, with a line buffer of 16 bytes
  and a grammar in which \<^verbatim>\<open>show\<close> is the one completion of \<^verbatim>\<open>sho\<close>.  After the fifteen
  printable bytes the line is full, \<^verbatim>\<open>buf_len = TL_MAX_LINE_LEN - 1\<close>, and terminated.  On
  TAB \<^verbatim>\<open>complete\<close> calls \<^verbatim>\<open>add_char\<close> for the missing \<^verbatim>\<open>w\<close> without the test for room that
  \<^verbatim>\<open>tl_input\<close> makes for a printable byte: \<^verbatim>\<open>add_char\<close> stores \<^verbatim>\<open>w\<close> at index 15, raises
  \<^verbatim>\<open>buf_len\<close> to 16 and stores the terminator at index 16, outside the buffer, so that the
  call has no result.
\<close>

theorem completion_overruns_line_buffer:
  "feed ex_cfg ex_engine ex_full_line \<noteq> None
   \<and> buf_len (ex_after ex_full_line) = 15 \<and> pos (ex_after ex_full_line) = 15
   \<and> buf (ex_after ex_full_line) ! 15 = NUL
   \<and> length (buf (ex_after ex_full_line)) = 16 \<and> TL_MAX_LINE_LEN ex_cfg = 16
   \<and> escape_len (ex_after ex_full_line) = 0
   \<and> tl_input ex_cfg (ex_after ex_full_line) (CHR 0x09) = None"
  by code_simp

subsection \<open>The line across a completion\<close>

text \<open>
  Claim C10 at the line \<^verbatim>\<open>say a"b s\<close> with the cursor at its end: \<^verbatim>\<open>say\<close> takes the string
  argument \<^verbatim>\<open>a"b\<close>, and \<^verbatim>\<open>s\<close> is a prefix of several tokens.  TAB lists them and prints the
  prompt and the line again, and the line is then \<^verbatim>\<open>say a"b"s\<close>.
\<close>

theorem completion_changes_line:
  "line (ex_after ex_say_line) = ''say a'' @ [DQUOTE] @ ''b s''
   \<and> pos (ex_after ex_say_line) = buf_len (ex_after ex_say_line)
   \<and> map_option (line \<circ> snd) (tl_input ex_cfg (ex_after ex_say_line) (CHR 0x09))
       = Some (''say a'' @ [DQUOTE] @ ''b'' @ [DQUOTE] @ ''s'')
   \<and> map_option (buf_len \<circ> snd) (tl_input ex_cfg (ex_after ex_say_line) (CHR 0x09)) = Some 9
   \<and> map_option (last \<circ> printed \<circ> snd) (tl_input ex_cfg (ex_after ex_say_line) (CHR 0x09))
       = Some (''say a'' @ [DQUOTE] @ ''b'' @ [DQUOTE] @ ''s'')"
  by code_simp

subsection \<open>Stepping down from the newest history entry\<close>

text \<open>
  Claim C9 as stated fails: after the line \<^verbatim>\<open>aaaa\<close> is submitted and the up arrow has
  brought it back, one down arrow (or one Ctrl-N) leaves the line empty and \<^verbatim>\<open>hist_step\<close> at
  \<^verbatim>\<open>hist_end\<close>, which is 5, not at -1.
\<close>

theorem down_from_newest_counterexample:
  "line (ex_after ex_up) = ''aaaa'' \<and> hist_step (ex_after ex_up) = 0
   \<and> hist_begin (ex_after ex_up) = 0 \<and> hist_end (ex_after ex_up) = 5
   \<and> map_option hist_step (feed ex_cfg (ex_after ex_up) [CHR 0x1B, CHR 0x5B, CHR 0x42]) = Some 5
   \<and> map_option buf_len (feed ex_cfg (ex_after ex_up) [CHR 0x1B, CHR 0x5B, CHR 0x42]) = Some 0
   \<and> map_option (hist_step \<circ> snd) (tl_input ex_cfg (ex_after ex_up) (CHR 0x0E)) = Some 5"
  by code_simp

lemma backspace_all_at_end:
  "pos e = buf_len e \<Longrightarrow> 0 \<le> pos e \<Longrightarrow> buf_len e \<le> int (length (buf e)) \<Longrightarrow>
     \<exists>b p. backspace_all e = Some (e\<lparr>buf := b, buf_len := 0, pos := 0, printed := p\<rparr>)
          \<and> length b = length (buf e)"
proof (induction "nat (pos e)" arbitrary: e)
  case 0
  then have "pos e = 0" "buf_len e = 0" by auto
  then have "backspace_all e = Some e" by simp
  moreover have "e = e\<lparr>buf := buf e, buf_len := 0, pos := 0, printed := printed e\<rparr>"
    using \<open>pos e = 0\<close> \<open>buf_len e = 0\<close> by simp
  ultimately show ?case by (metis)
next
  case (Suc n)
  then have p: "0 < pos e" "pos e \<noteq> 0" by auto
  define e1 where "e1 = (print (CURSOR_LEFT @ [SPACE] @ CURSOR_LEFT)
        (e\<lparr>buf := (buf e)[nat (buf_len e - 1) := NUL]\<rparr>))\<lparr>buf_len := buf_len e - 1, pos := pos e - 1\<rparr>"
  have bs: "backspace e = Some e1"
    using Suc.prems p by (simp add: backspace_def wr_def e1_def)
  have "n = nat (pos e1)" using Suc.hyps(2) by (simp add: e1_def)
  moreover have "pos e1 = buf_len e1" "0 \<le> pos e1" "buf_len e1 \<le> int (length (buf e1))"
    using Suc.prems p by (auto simp: e1_def print_def)
  ultimately obtain b q where
    r: "backspace_all e1 = Some (e1\<lparr>buf := b, buf_len := 0, pos := 0, printed := q\<rparr>)"
       "length b = length (buf e1)"
    using Suc.hyps(1) by blast
  have "e1\<lparr>buf := b, buf_len := 0, pos := 0, printed := q\<rparr>
        = e\<lparr>buf := b, buf_len := 0, pos := 0, printed := q\<rparr>"
    by (simp add: e1_def print_def)
  moreover have "length (buf e1) = length (buf e)" by (simp add: e1_def print_def)
  moreover have "backspace_all e = backspace_all e1"
    using bs p by (subst backspace_all.simps) simp
  ultimately show ?case using r by (metis)
qed

lemma delete_line_clears:
  assumes "0 \<le> pos e" "pos e \<le> buf_len e" "buf_len e \<le> int (length (buf e))"
  shows "\<exists>b p. delete_line e = Some (e\<lparr>buf := b, buf_len := 0, pos := 0, printed := p\<rparr>)
          \<and> length b = length (buf e)"
proof -
  define e1 where "e1 = cursor_to_end CURSOR_RIGHT e"
  have e1: "pos e1 = buf_len e1" "0 \<le> pos e1" "buf_len e1 \<le> int (length (buf e1))"
    "buf e1 = buf e"
    using assms by (auto simp: e1_def cursor_to_end_def print_n_def)
  from backspace_all_at_end[OF e1(1,2,3)] obtain b q where
    r: "backspace_all e1 = Some (e1\<lparr>buf := b, buf_len := 0, pos := 0, printed := q\<rparr>)"
       "length b = length (buf e1)" by blast
  have "e1\<lparr>buf := b, buf_len := 0, pos := 0, printed := q\<rparr>
        = e\<lparr>buf := b, buf_len := 0, pos := 0, printed := q\<rparr>"
    by (simp add: e1_def cursor_to_end_def print_n_def)
  with r e1(4) show ?thesis by (metis delete_line_def e1_def)
qed

lemma history_down_loop_finds:
  "0 \<le> i \<Longrightarrow> i \<le> t \<Longrightarrow> t < int (length hb) \<Longrightarrow> t < TL_MAX_HISTORY_SIZE cf \<Longrightarrow>
   (\<forall>j. i \<le> j \<and> j < t \<longrightarrow> hb ! nat j \<noteq> NUL) \<Longrightarrow> hb ! nat t = NUL \<Longrightarrow>
     history_down_loop cf hb i = Some t"
proof (induction "nat (t - i)" arbitrary: i)
  case 0
  then have "i = t" by simp
  with 0 show ?case by (subst history_down_loop.simps) (simp add: rd_def)
next
  case (Suc n)
  then have lt: "i < t" by linarith
  with Suc.prems have nz: "hb ! nat i \<noteq> NUL" by simp
  have inc: "hist_inc cf i = i + 1" using lt Suc.prems(4) by (simp add: hist_inc_def)
  have "history_down_loop cf hb (i + 1) = Some t"
    by (rule Suc.hyps(1)) (use Suc.hyps(2) Suc.prems lt in auto)
  with nz inc lt Suc.prems show ?case
    by (subst history_down_loop.simps) (simp add: rd_def)
qed

lemma cstr_at_NUL:
  "0 \<le> off \<Longrightarrow> off < int (length xs) \<Longrightarrow> xs ! nat off = NUL \<Longrightarrow> cstr xs off = Some []"
proof -
  assume a: "0 \<le> off" "off < int (length xs)" "xs ! nat off = NUL"
  then have "drop (nat off) xs = NUL # drop (Suc (nat off)) xs"
    by (metis Cons_nth_drop_Suc nat_less_iff)
  with a show ?thesis by (simp add: cstr_def)
qed

lemma set_line_empty:
  assumes "pos e = 0" "buf_len e = 0" "0 < length (buf e)" "1 \<le> TL_MAX_LINE_LEN cf"
  shows "\<exists>b p. set_line cf e [] = Some (e\<lparr>buf := b, printed := p\<rparr>) \<and> length b = length (buf e)"
proof -
  have "set_line cf e [] = Some ((print [] e)\<lparr>pos := 0, buf := (buf e)[0 := NUL], buf_len := 0\<rparr>)"
    using assms by (simp add: set_line_def blit_def wr_def)
  moreover have "(print [] e)\<lparr>pos := 0, buf := (buf e)[0 := NUL], buf_len := 0\<rparr>
      = e\<lparr>buf := (buf e)[0 := NUL], printed := printed e @ [[]]\<rparr>"
    using assms by (simp add: print_def)
  ultimately show ?thesis by (metis length_list_update)
qed

lemma takeWhile_stops:
  "x \<in> set ys \<Longrightarrow> \<not> P x \<Longrightarrow>
     length (takeWhile P ys) < length ys \<and> \<not> P (ys ! length (takeWhile P ys))
     \<and> (\<forall>k<length (takeWhile P ys). P (ys ! k))"
proof (induction ys)
  case Nil
  then show ?case by simp
next
  case (Cons y ys)
  show ?case
  proof (cases "P y")
    case False
    then show ?thesis by simp
  next
    case True
    with Cons.prems have "x \<in> set ys" by auto
    from Cons.IH[OF this Cons.prems(2)] True show ?thesis
      by (auto simp: nth_Cons split: nat.splits)
  qed
qed

lemma cstr_SomeD:
  assumes "cstr xs off = Some s"
  shows "0 \<le> off" "off + int (length s) < int (length xs)"
    "xs ! nat (off + int (length s)) = NUL"
    "\<forall>j. off \<le> j \<and> j < off + int (length s) \<longrightarrow> xs ! nat j \<noteq> NUL"
proof -
  define d where "d = drop (nat off) xs"
  from assms have o: "0 \<le> off" "off \<le> int (length xs)" and n: "NUL \<in> set d"
    and s: "s = takeWhile (\<lambda>c. c \<noteq> NUL) d"
    by (auto simp: cstr_def d_def split: if_splits)
  from takeWhile_stops[OF n, of "\<lambda>c. c \<noteq> NUL"]
  have lt: "length s < length d" and z: "d ! length s = NUL"
    and nz: "\<forall>k<length s. d ! k \<noteq> NUL"
    unfolding s by auto
  show "0 \<le> off" by fact
  have ld: "length d = length xs - nat off" by (simp add: d_def)
  show "off + int (length s) < int (length xs)" using lt o ld by linarith
  have idx: "\<And>k. k < length d \<Longrightarrow> d ! k = xs ! (nat off + k)"
    by (simp add: d_def)
  have "nat (off + int (length s)) = nat off + length s" using o by linarith
  then show "xs ! nat (off + int (length s)) = NUL" using z idx[OF lt] by simp
  show "\<forall>j. off \<le> j \<and> j < off + int (length s) \<longrightarrow> xs ! nat j \<noteq> NUL"
  proof (intro allI impI)
    fix j assume j: "off \<le> j \<and> j < off + int (length s)"
    define k where "k = nat (j - off)"
    have k: "k < length s" "nat j = nat off + k" using j o by (auto simp: k_def)
    have "k < length d" using k(1) lt by simp
    from idx[OF this] have "xs ! nat j = d ! k" using k(2) by simp
    moreover from nz k(1) have "d ! k \<noteq> NUL" by blast
    ultimately show "xs ! nat j \<noteq> NUL" by simp
  qed
qed

lemma history_down_from_newest:
  assumes wf: "0 \<le> pos e" "pos e \<le> buf_len e" "buf_len e < int (length (buf e))"
    and cf: "1 \<le> TL_MAX_LINE_LEN cf"
    and ns: "newest_shown cf e"
  shows "\<exists>b p. history_down cf e
            = Some (e\<lparr>buf := b, buf_len := 0, pos := 0, printed := p, hist_step := hist_end e\<rparr>)
          \<and> length b = length (buf e)"
proof -
  from ns obtain s where s: "cstr (hist_buf e) (hist_step e) = Some s" "s \<noteq> []"
    "hist_step e + int (length s) < TL_MAX_HISTORY_SIZE cf"
    "hist_end e = hist_inc cf (hist_step e + int (length s))"
    "rd (hist_buf e) (hist_end e) = Some NUL"
    unfolding newest_shown_def by (auto split: option.splits)
  define t where "t = hist_step e + int (length s)"
  note c = cstr_SomeD[OF s(1)]
  have t: "0 \<le> hist_step e" "hist_step e < t" "t < int (length (hist_buf e))"
    "t < TL_MAX_HISTORY_SIZE cf" "\<forall>j. hist_step e \<le> j \<and> j < t \<longrightarrow> hist_buf e ! nat j \<noteq> NUL"
    "hist_buf e ! nat t = NUL" "hist_end e = hist_inc cf t"
    "0 \<le> hist_end e" "hist_end e < int (length (hist_buf e))" "hist_buf e ! nat (hist_end e) = NUL"
    using c s(2,3,4,5) unfolding t_def by (auto simp: rd_def split: if_splits)
  have ne: "hist_step e \<noteq> -1" using t(1) by simp
  have "hist_buf e ! nat (hist_step e) \<noteq> NUL" using t(2,5) by simp
  with t(10) have ne2: "hist_step e \<noteq> hist_end e" by auto
  from delete_line_clears[OF wf(1,2)] wf(3) obtain b1 p1 where
    d: "delete_line e = Some (e\<lparr>buf := b1, buf_len := 0, pos := 0, printed := p1\<rparr>)"
       "length b1 = length (buf e)" by auto
  define e1 where "e1 = e\<lparr>buf := b1, buf_len := 0, pos := 0, printed := p1\<rparr>"
  have lp: "history_down_loop cf (hist_buf e1) (hist_step e1) = Some t"
    using history_down_loop_finds[OF t(1) _ t(3,4,5,6)] t(2) by (simp add: e1_def)
  have cs: "cstr (hist_buf e1) (hist_inc cf t) = Some []"
    using cstr_at_NUL[OF t(8,9,10)] t(7) by (simp add: e1_def)
  have "pos e1 = 0" "buf_len e1 = 0" "0 < length (buf e1)"
    using wf d(2) by (auto simp: e1_def)
  from set_line_empty[OF this cf] obtain b2 p2 where
    s: "set_line cf e1 [] = Some (e1\<lparr>buf := b2, printed := p2\<rparr>)" "length b2 = length (buf e1)"
    by blast
  have "history_down cf e = Some ((e1\<lparr>buf := b2, printed := p2\<rparr>)\<lparr>hist_step := hist_inc cf t\<rparr>)"
    using ne ne2 d(1) lp cs s(1) unfolding history_down_def e1_def[symmetric]
    by (simp add: e1_def)
  moreover have "(e1\<lparr>buf := b2, printed := p2\<rparr>)\<lparr>hist_step := hist_inc cf t\<rparr>
      = e\<lparr>buf := b2, buf_len := 0, pos := 0, printed := p2, hist_step := hist_end e\<rparr>"
    by (simp add: e1_def t(7))
  moreover have "length b2 = length (buf e)" using s(2) d(2) by (simp add: e1_def)
  ultimately show ?thesis by metis
qed

lemma history_down_at_end:
  assumes "hist_step e = hist_end e" "hist_end e \<noteq> -1" "pos e = 0" "buf_len e = 0"
  shows "history_down cf e = Some (e\<lparr>hist_step := -1\<rparr>)"
proof -
  have "cursor_to_end CURSOR_RIGHT e = e" using assms by (simp add: cursor_to_end_def)
  then have "delete_line e = Some e" using assms by (simp add: delete_line_def)
  with assms show ?thesis by (simp add: history_down_def)
qed


lemma tl_input_ctrl_n:
  "escape_len e = 0 \<Longrightarrow> tl_input cf e (CHR 0x0E) = map_option (Pair True) (history_down cf e)"
  unfolding tl_input_def by (simp only: if_False if_True simp_thms char.inject)

lemma tl_input_escape_start:
  "escape_len e = 0 \<Longrightarrow> 0 < length (escape e) \<Longrightarrow>
   tl_input cf e (CHR 0x1B) = Some (True, e\<lparr>escape := (escape e)[0 := CHR 0x1B], escape_len := 1\<rparr>)"
  unfolding tl_input_def by (simp add: wr_def)

lemma tl_input_escape_second:
  "escape_len e = 1 \<Longrightarrow> 1 < length (escape e) \<Longrightarrow> TL_MAX_ESCAPE_LEN cf \<noteq> 2 \<Longrightarrow>
   tl_input cf e c = Some (True, e\<lparr>escape := (escape e)[1 := c], escape_len := 2\<rparr>)"
  unfolding tl_input_def by (simp add: wr_def process_escape_def)

lemma tl_input_escape_down:
  assumes "escape_len e = 2" "2 < length (escape e)" "take 2 (escape e) = [CHR 0x1B, CHR 0x5B]"
  shows "tl_input cf e (CHR 0x42)
       = map_option (\<lambda>e'. (True, e'\<lparr>escape_len := 0\<rparr>))
           (history_down cf (e\<lparr>escape := (escape e)[2 := CHR 0x42], escape_len := 3\<rparr>))"
proof -
  have "take 3 ((escape e)[2 := CHR 0x42]) = take 2 (escape e) @ [CHR 0x42]"
    using assms(2) by (simp add: numeral_3_eq_3 numeral_2_eq_2 take_Suc_conv_app_nth)
  then have sl: "slice ((escape e)[2 := CHR 0x42]) 0 3 = Some [CHR 0x1B, CHR 0x5B, CHR 0x42]"
    using assms(2,3) by (simp add: slice_def)
  show ?thesis
    unfolding tl_input_def using assms(1,2) sl
    by (cases "history_down cf (e\<lparr>escape := (escape e)[2 := CHR 0x42], escape_len := 3\<rparr>)")
       (simp_all add: wr_def process_escape_def)
qed


lemma feed_down_arrow:
  assumes "escape_len e = 0" "3 \<le> length (escape e)" "TL_MAX_ESCAPE_LEN cf \<noteq> 2"
  shows "feed cf e [CHR 0x1B, CHR 0x5B, CHR 0x42]
       = map_option (\<lambda>e'. e'\<lparr>escape_len := 0\<rparr>)
           (history_down cf
              (e\<lparr>escape := (escape e)[0 := CHR 0x1B, 1 := CHR 0x5B, 2 := CHR 0x42],
                 escape_len := 3\<rparr>))"
proof -
  define a1 where "a1 = e\<lparr>escape := (escape e)[0 := CHR 0x1B], escape_len := 1\<rparr>"
  define a2 where "a2 = a1\<lparr>escape := (escape a1)[1 := CHR 0x5B], escape_len := 2\<rparr>"
  have s1: "tl_input cf e (CHR 0x1B) = Some (True, a1)"
    unfolding a1_def by (rule tl_input_escape_start) (use assms in auto)
  have s2: "tl_input cf a1 (CHR 0x5B) = Some (True, a2)"
    unfolding a2_def by (rule tl_input_escape_second) (use assms in \<open>auto simp: a1_def\<close>)
  from assms(2) obtain x0 x1 x2 r where ee: "escape e = x0 # x1 # x2 # r"
    by (auto simp: numeral_3_eq_3 Suc_le_length_iff)
  have t2: "take 2 (escape a2) = [CHR 0x1B, CHR 0x5B]"
    by (simp add: a2_def a1_def ee numeral_2_eq_2)
  have s3: "tl_input cf a2 (CHR 0x42)
       = map_option (\<lambda>e'. (True, e'\<lparr>escape_len := 0\<rparr>))
           (history_down cf (a2\<lparr>escape := (escape a2)[2 := CHR 0x42], escape_len := 3\<rparr>))"
    by (rule tl_input_escape_down) (use assms t2 in \<open>auto simp: a2_def a1_def\<close>)
  have eq: "a2\<lparr>escape := (escape a2)[2 := CHR 0x42], escape_len := 3\<rparr>
      = e\<lparr>escape := (escape e)[0 := CHR 0x1B, 1 := CHR 0x5B, 2 := CHR 0x42], escape_len := 3\<rparr>"
    by (simp add: a2_def a1_def)
  show ?thesis
    using s1 s2 s3 unfolding eq
    by (cases "history_down cf
          (e\<lparr>escape := (escape e)[0 := CHR 0x1B, 1 := CHR 0x5B, 2 := CHR 0x42], escape_len := 3\<rparr>)")
       simp_all
qed

text \<open>
  Claim C9, as the code has it.  Let the newest entry be displayed (\<open>newest_shown\<close>), the
  cursor lie inside a line that fits the buffer, and no escape sequence be in progress.
  Then one Ctrl-N, and likewise one down arrow, empties the line and leaves \<^verbatim>\<open>hist_step\<close> at
  \<^verbatim>\<open>hist_end\<close>, which is not the sentinel -1; a second one, with the line still empty, sets
  \<^verbatim>\<open>hist_step\<close> to -1.  The escape buffer has room for the three bytes of the arrow, and
  \<^verbatim>\<open>TL_MAX_ESCAPE_LEN\<close> is not 2, so that the sequence is not cut after its second byte.
\<close>

theorem down_from_newest:
  assumes esc: "escape_len e = 0" "3 \<le> length (escape e)" "TL_MAX_ESCAPE_LEN cf \<noteq> 2"
    and wf: "0 \<le> pos e" "pos e \<le> buf_len e" "buf_len e < int (length (buf e))"
    and cf: "1 \<le> TL_MAX_LINE_LEN cf"
    and ns: "newest_shown cf e"
  shows "(\<exists>e1 e2. tl_input cf e (CHR 0x0E) = Some (True, e1)
            \<and> hist_step e1 = hist_end e \<and> hist_step e1 \<noteq> -1 \<and> buf_len e1 = 0 \<and> pos e1 = 0
            \<and> tl_input cf e1 (CHR 0x0E) = Some (True, e2)
            \<and> hist_step e2 = -1 \<and> buf_len e2 = 0 \<and> pos e2 = 0)
       \<and> (\<exists>e1 e2. feed cf e [CHR 0x1B, CHR 0x5B, CHR 0x42] = Some e1
            \<and> hist_step e1 = hist_end e \<and> hist_step e1 \<noteq> -1 \<and> buf_len e1 = 0 \<and> pos e1 = 0
            \<and> feed cf e1 [CHR 0x1B, CHR 0x5B, CHR 0x42] = Some e2
            \<and> hist_step e2 = -1 \<and> buf_len e2 = 0 \<and> pos e2 = 0)"
proof
  have he: "hist_end e \<noteq> -1"
    using ns by (auto simp: newest_shown_def rd_def split: option.splits if_splits)
  show "\<exists>e1 e2. tl_input cf e (CHR 0x0E) = Some (True, e1)
            \<and> hist_step e1 = hist_end e \<and> hist_step e1 \<noteq> -1 \<and> buf_len e1 = 0 \<and> pos e1 = 0
            \<and> tl_input cf e1 (CHR 0x0E) = Some (True, e2)
            \<and> hist_step e2 = -1 \<and> buf_len e2 = 0 \<and> pos e2 = 0"
  proof -
    from history_down_from_newest[OF wf cf ns] obtain b p where
      d: "history_down cf e
          = Some (e\<lparr>buf := b, buf_len := 0, pos := 0, printed := p, hist_step := hist_end e\<rparr>)"
      by blast
    define e1 where "e1 = e\<lparr>buf := b, buf_len := 0, pos := 0, printed := p, hist_step := hist_end e\<rparr>"
    have a: "tl_input cf e (CHR 0x0E) = Some (True, e1)"
      using tl_input_ctrl_n[OF esc(1), of cf] d by (simp add: e1_def)
    have "history_down cf e1 = Some (e1\<lparr>hist_step := -1\<rparr>)"
      by (rule history_down_at_end) (use he in \<open>auto simp: e1_def\<close>)
    moreover have "escape_len e1 = 0" using esc(1) by (simp add: e1_def)
    ultimately have b: "tl_input cf e1 (CHR 0x0E) = Some (True, e1\<lparr>hist_step := -1\<rparr>)"
      using tl_input_ctrl_n[of e1 cf] by simp
    have c: "hist_step e1 = hist_end e" "buf_len e1 = 0" "pos e1 = 0" by (simp_all add: e1_def)
    show ?thesis
      by (intro exI[of _ e1] exI[of _ "e1\<lparr>hist_step := -1\<rparr>"]) (use a b c he in simp)
  qed
  show "\<exists>e1 e2. feed cf e [CHR 0x1B, CHR 0x5B, CHR 0x42] = Some e1
            \<and> hist_step e1 = hist_end e \<and> hist_step e1 \<noteq> -1 \<and> buf_len e1 = 0 \<and> pos e1 = 0
            \<and> feed cf e1 [CHR 0x1B, CHR 0x5B, CHR 0x42] = Some e2
            \<and> hist_step e2 = -1 \<and> buf_len e2 = 0 \<and> pos e2 = 0"
  proof -
    define a3 where "a3 = e\<lparr>escape := (escape e)[0 := CHR 0x1B, 1 := CHR 0x5B, 2 := CHR 0x42],
                 escape_len := 3\<rparr>"
    have ns3: "newest_shown cf a3"
      using ns by (auto simp: newest_shown_def a3_def split: option.splits)
    have wf3: "0 \<le> pos a3" "pos a3 \<le> buf_len a3" "buf_len a3 < int (length (buf a3))"
      using wf by (simp_all add: a3_def)
    from history_down_from_newest[OF wf3 cf ns3] obtain b p where
      d: "history_down cf a3
          = Some (a3\<lparr>buf := b, buf_len := 0, pos := 0, printed := p, hist_step := hist_end a3\<rparr>)"
      by blast
    define e1 where "e1 = (a3\<lparr>buf := b, buf_len := 0, pos := 0, printed := p,
                              hist_step := hist_end a3\<rparr>)\<lparr>escape_len := 0\<rparr>"
    have a: "feed cf e [CHR 0x1B, CHR 0x5B, CHR 0x42] = Some e1"
      using feed_down_arrow[OF esc, folded a3_def] d by (simp add: e1_def)
    have c: "hist_step e1 = hist_end e" "buf_len e1 = 0" "pos e1 = 0" "escape_len e1 = 0"
      "3 \<le> length (escape e1)" "hist_end e1 = hist_end e"
      using esc(2) by (simp_all add: e1_def a3_def)
    define b3 where "b3 = e1\<lparr>escape := (escape e1)[0 := CHR 0x1B, 1 := CHR 0x5B, 2 := CHR 0x42],
                 escape_len := 3\<rparr>"
    have "history_down cf b3 = Some (b3\<lparr>hist_step := -1\<rparr>)"
      by (rule history_down_at_end) (use he c in \<open>auto simp: b3_def\<close>)
    then have b: "feed cf e1 [CHR 0x1B, CHR 0x5B, CHR 0x42]
        = Some ((b3\<lparr>hist_step := -1\<rparr>)\<lparr>escape_len := 0\<rparr>)"
      using feed_down_arrow[OF c(4,5) esc(3), folded b3_def] by simp
    show ?thesis
      by (intro exI[of _ e1] exI[of _ "(b3\<lparr>hist_step := -1\<rparr>)\<lparr>escape_len := 0\<rparr>"])
         (use a b c he in \<open>simp add: b3_def\<close>)
  qed
qed


theorem down_from_newest_witness:
  "newest_shown ex_cfg (ex_after ex_up)
   \<and> (\<exists>e1 e2. tl_input ex_cfg (ex_after ex_up) (CHR 0x0E) = Some (True, e1)
          \<and> hist_step e1 = 5 \<and> buf_len e1 = 0 \<and> pos e1 = 0
          \<and> tl_input ex_cfg e1 (CHR 0x0E) = Some (True, e2)
          \<and> hist_step e2 = -1 \<and> buf_len e2 = 0 \<and> pos e2 = 0)"
proof -
  have h: "escape_len (ex_after ex_up) = 0" "3 \<le> length (escape (ex_after ex_up))"
    "TL_MAX_ESCAPE_LEN ex_cfg \<noteq> 2" "0 \<le> pos (ex_after ex_up)"
    "pos (ex_after ex_up) \<le> buf_len (ex_after ex_up)"
    "buf_len (ex_after ex_up) < int (length (buf (ex_after ex_up)))"
    "1 \<le> TL_MAX_LINE_LEN ex_cfg" "newest_shown ex_cfg (ex_after ex_up)"
    by code_simp+
  have v: "hist_end (ex_after ex_up) = 5" by code_simp
  from down_from_newest[OF h, THEN conjunct1] obtain e1 e2 where
    "tl_input ex_cfg (ex_after ex_up) (CHR 0x0E) = Some (True, e1)"
    "hist_step e1 = hist_end (ex_after ex_up)" "buf_len e1 = 0" "pos e1 = 0"
    "tl_input ex_cfg e1 (CHR 0x0E) = Some (True, e2)"
    "hist_step e2 = -1" "buf_len e2 = 0" "pos e2 = 0"
    by blast
  then show ?thesis using h(8) v by auto
qed

subsection \<open>Integer arguments\<close>

lemma tokenize_loop_append:
  "tokenize_loop cf compl (xs @ ys) w e =
     (case tokenize_loop cf compl xs w e of
        None \<Rightarrow> None
      | Some (ok, w', e') \<Rightarrow>
          if ok then tokenize_loop cf compl ys w' e' else Some (False, w', e'))"
  by (induction xs arbitrary: w e) (auto split: option.splits)

lemma tokenize_word_int_token:
  assumes "\<not> finished w" "arg_needed w = TARG_NONE"
    "rd (token_stack w) (cur_tsp w) = Some (Some toks)"
    "cstr (buf e) off = Some word"
    "find_token toks (token_dict e) word = k" "-1 < k" "rd toks k = Some ent"
    "arg_type ent = TARG_INT"
    "0 \<le> cur_tp w" "cur_tp w < int (length (tokens (parsed e)))"
  shows "tokenize_word cf compl off w e
       = Some (True, w\<lparr>cur_tp := cur_tp w + 1, arg_needed := TARG_INT, arg_tokens := arg_tokens w\<rparr>,
               e\<lparr>parsed := (parsed e)\<lparr>tokens := (tokens (parsed e))[nat (cur_tp w) := token ent],
                                         last_token_entry := Some ent\<rparr>\<rparr>)"
  using assms by (simp add: tokenize_word_def put_token_def set_last_def wr_def)

lemma tokenize_word_int_arg:
  assumes "\<not> finished w" "arg_needed w = TARG_INT"
    "cstr (buf e) off = Some word" "strtol cf word = (v, rest)"
  shows "rest \<noteq> [] \<Longrightarrow>
           tokenize_word cf compl off w e
           = Some (False, w, if compl then e else print ''Invalid value.\<newline>'' e)"
    and "rest = [] \<Longrightarrow> 0 \<le> cur_tp w \<Longrightarrow> cur_tp w + 1 < int (length (tokens (parsed e))) \<Longrightarrow>
         0 \<le> cur_bufsize w \<Longrightarrow>
         cur_bufsize w + int (length (int_repr cf v)) \<le> int (length (pbuf (parsed e))) \<Longrightarrow>
           tokenize_word cf compl off w e
           = Some (True,
                   w\<lparr>cur_tp := cur_tp w + 2,
                      cur_bufsize := cur_bufsize w + int (length (int_repr cf v)),
                      arg_needed := TARG_NONE\<rparr>,
                   e\<lparr>parsed := (parsed e)
                       \<lparr>tokens := (tokens (parsed e))
                            [nat (cur_tp w) := targ cf TARG_INT, nat (cur_tp w + 1) := cur_bufsize w],
                        pbuf := take (nat (cur_bufsize w)) (pbuf (parsed e)) @ int_repr cf v
                                @ drop (nat (cur_bufsize w) + length (int_repr cf v)) (pbuf (parsed e))\<rparr>\<rparr>)"
  using assms by (simp_all add: tokenize_word_def put_token_def put_bytes_def wr_def blit_def)


lemma take4_drop_update:
  assumes "c + 3 < length T"
  shows "take 4 (drop c (T[c := a, Suc c := b, Suc (Suc c) := d, Suc (Suc (Suc c)) := z]))
       = [a, b, d, z]"
proof (rule nth_equalityI)
  let ?U = "T[c := a, Suc c := b, Suc (Suc c) := d, Suc (Suc (Suc c)) := z]"
  show "length (take 4 (drop c ?U)) = length [a, b, d, z]" using assms by simp
  fix i assume "i < length (take 4 (drop c ?U))"
  then have "i < 4" by simp
  then consider "i = 0" | "i = Suc 0" | "i = Suc (Suc 0)" | "i = Suc (Suc (Suc 0))" by linarith
  then show "take 4 (drop c ?U) ! i = [a, b, d, z] ! i"
    using assms by cases simp_all
qed

text \<open>
  Claim C6.  Let the walk of \<^verbatim>\<open>tokenize\<close> (in parse mode) have consumed the words \<open>pre\<close> and
  expect a token, let the next word match an entry \<open>ent\<close> of the current token list whose
  argument type is \<^verbatim>\<open>TARG_INT\<close>, and let \<^verbatim>\<open>strtol\<close> with base 0 read the value \<open>v\<close> from the
  word after it and leave \<open>rest\<close> unread.  If \<open>rest\<close> is not empty, \<^verbatim>\<open>tokenize\<close> fails with
  \<^verbatim>\<open>Invalid value.\<close>  If it is empty and the parse result has room, \<^verbatim>\<open>tokenize\<close> succeeds and
  the token stream holds, from the position the walk had reached, the token of \<open>ent\<close>, the
  tag \<^verbatim>\<open>TARG_INT\<close>, the offset into the argument storage, and the terminating 0; at that
  offset the storage holds the host representation of \<open>v\<close>.
\<close>

theorem tokenize_integer_argument:
  assumes lvl: "rd (token_levels e) (token_level e) = Some lvl"
    and pre: "tokenize_loop cf False pre (walk_init lvl) e = Some (True, w, e1)"
    and idle: "\<not> finished w" "arg_needed w = TARG_NONE"
    and stack: "rd (token_stack w) (cur_tsp w) = Some (Some toks)"
    and w1: "cstr (buf e1) o1 = Some word1"
    and m: "find_token toks (token_dict e1) word1 = k" "-1 < k" "rd toks k = Some ent"
      "arg_type ent = TARG_INT"
    and w2: "cstr (buf e1) o2 = Some word2"
    and st: "strtol cf word2 = (v, rest)"
    and room: "0 \<le> cur_tp w" "cur_tp w + 3 < int (length (tokens (parsed e1)))"
      "0 \<le> cur_bufsize w"
      "cur_bufsize w + int (length (int_repr cf v)) \<le> int (length (pbuf (parsed e1)))"
  shows "(rest \<noteq> [] \<longrightarrow>
           (\<exists>e'. tokenize cf e (pre @ [o1, o2]) False = Some (False, None, TARG_NONE, e')
                 \<and> printed e' = printed e1 @ [''Invalid value.\<newline>'']))
       \<and> (rest = [] \<longrightarrow>
           (\<exists>e'. tokenize cf e (pre @ [o1, o2]) False = Some (True, None, TARG_NONE, e')
                 \<and> slice (tokens (parsed e')) (cur_tp w) 4
                     = Some [token ent, targ cf TARG_INT, cur_bufsize w, 0]
                 \<and> slice (pbuf (parsed e')) (cur_bufsize w) (int (length (int_repr cf v)))
                     = Some (int_repr cf v)))"
proof -
  define c where "c = nat (cur_tp w)"
  define T where "T = tokens (parsed e1)"
  define w' where "w' = w\<lparr>cur_tp := cur_tp w + 1, arg_needed := TARG_INT, arg_tokens := arg_tokens w\<rparr>"
  define e2 where "e2 = e1\<lparr>parsed := (parsed e1)\<lparr>tokens := T[c := token ent],
                                         last_token_entry := Some ent\<rparr>\<rparr>"
  have cT: "cur_tp w = int c" "c + 3 < length T" using room by (auto simp: c_def T_def)
  have step1: "tokenize_word cf False o1 w e1 = Some (True, w', e2)"
    unfolding w'_def e2_def T_def c_def
    by (rule tokenize_word_int_token[OF idle stack w1 m room(1)]) (use room in simp)
  have w2': "cstr (buf e2) o2 = Some word2" using w2 by (simp add: e2_def)
  have i2: "\<not> finished w'" "arg_needed w' = TARG_INT" using idle by (simp_all add: w'_def)
  have loop2: "tokenize_loop cf False (pre @ [o1, o2]) (walk_init lvl) e
      = (case tokenize_word cf False o2 w' e2 of
           None \<Rightarrow> None
         | Some (ok, w2, e3) \<Rightarrow> if ok then Some (True, w2, e3) else Some (False, w2, e3))"
    using pre step1 by (simp add: tokenize_loop_append split: option.splits)
  show ?thesis
  proof (intro conjI impI)
    assume r: "rest \<noteq> []"
    have "tokenize_word cf False o2 w' e2 = Some (False, w', print ''Invalid value.\<newline>'' e2)"
      using tokenize_word_int_arg(1)[OF i2 w2' st r, of False] by simp
    with loop2 lvl have "tokenize cf e (pre @ [o1, o2]) False
        = Some (False, None, TARG_NONE, print ''Invalid value.\<newline>'' e2)"
      by (simp add: tokenize_def)
    moreover have "printed (print ''Invalid value.\<newline>'' e2)
        = printed e1 @ [''Invalid value.\<newline>'']"
      by (simp add: print_def e2_def)
    ultimately show "\<exists>e'. tokenize cf e (pre @ [o1, o2]) False = Some (False, None, TARG_NONE, e')
                 \<and> printed e' = printed e1 @ [''Invalid value.\<newline>'']"
      by blast
  next
    assume r: "rest = []"
    define R where "R = int_repr cf v"
    define b where "b = nat (cur_bufsize w)"
    define P where "P = pbuf (parsed e1)"
    have bP: "cur_bufsize w = int b" "b + length R \<le> length P"
      using room by (auto simp: b_def P_def R_def)
    define w3 where "w3 = w'\<lparr>cur_tp := cur_tp w' + 2,
                      cur_bufsize := cur_bufsize w' + int (length (int_repr cf v)),
                      arg_needed := TARG_NONE\<rparr>"
    define e3 where "e3 = e2\<lparr>parsed := (parsed e2)
                       \<lparr>tokens := (tokens (parsed e2))
                            [nat (cur_tp w') := targ cf TARG_INT, nat (cur_tp w' + 1) := cur_bufsize w'],
                        pbuf := take (nat (cur_bufsize w')) (pbuf (parsed e2)) @ int_repr cf v
                                @ drop (nat (cur_bufsize w') + length (int_repr cf v)) (pbuf (parsed e2))\<rparr>\<rparr>"
    have step2: "tokenize_word cf False o2 w' e2 = Some (True, w3, e3)"
      unfolding w3_def e3_def
      by (rule tokenize_word_int_arg(2)[OF i2 w2' st r])
         (use room cT in \<open>auto simp: w'_def e2_def T_def\<close>)
    have an: "arg_needed w3 = TARG_NONE" "cur_tp w3 = int c + 3"
      by (simp_all add: w3_def w'_def cT)
    have tk3: "tokens (parsed e3) = T[c := token ent, Suc c := targ cf TARG_INT,
                                      Suc (Suc c) := cur_bufsize w]"
      using cT by (simp add: e3_def e2_def w'_def nat_add_distrib)
    have pb3: "pbuf (parsed e3) = take b P @ R @ drop (b + length R) P"
      by (simp add: e3_def e2_def w'_def b_def P_def R_def)
    define e4 where "e4 = e3\<lparr>parsed := (parsed e3)\<lparr>tokens := (tokens (parsed e3))[c + 3 := 0]\<rparr>\<rparr>"
    have pt: "put_token e3 (cur_tp w3) 0 = Some e4"
      using cT an tk3 by (simp add: put_token_def wr_def e4_def nat_add_distrib)
    have tz: "tokenize cf e (pre @ [o1, o2]) False = Some (True, None, TARG_NONE, e4)"
      using loop2 step2 lvl an pt by (simp add: tokenize_def)
    have "tokens (parsed e4) = T[c := token ent, Suc c := targ cf TARG_INT,
              Suc (Suc c) := cur_bufsize w, Suc (Suc (Suc c)) := 0]"
      by (simp add: e4_def tk3 numeral_3_eq_3)
    then have s1: "slice (tokens (parsed e4)) (cur_tp w) 4
        = Some [token ent, targ cf TARG_INT, cur_bufsize w, 0]"
      using cT take4_drop_update[OF cT(2)] by (simp add: slice_def)
    have "length (take b P) = b" using bP by simp
    then have "take (length R) (drop b (take b P @ R @ drop (b + length R) P)) = R"
      by simp
    moreover have "length (take b P @ R @ drop (b + length R) P) = length P"
      using bP by simp
    ultimately have s2: "slice (pbuf (parsed e4)) (cur_bufsize w) (int (length (int_repr cf v)))
        = Some (int_repr cf v)"
      using bP by (simp add: slice_def e4_def pb3 R_def[symmetric])
    from tz s1 s2 show "\<exists>e'. tokenize cf e (pre @ [o1, o2]) False = Some (True, None, TARG_NONE, e')
                 \<and> slice (tokens (parsed e')) (cur_tp w) 4
                     = Some [token ent, targ cf TARG_INT, cur_bufsize w, 0]
                 \<and> slice (pbuf (parsed e')) (cur_bufsize w) (int (length (int_repr cf v)))
                     = Some (int_repr cf v)"
      by blast
  qed
qed

theorem tokenize_integer_argument_witness:
  "strtol ex_cfg ''0x2A'' = (42, [])
   \<and> (\<exists>e'. tokenize ex_cfg (ex_split ''set 0x2A'') [0, 4] False = Some (True, None, TARG_NONE, e')
          \<and> slice (tokens (parsed e')) 0 4 = Some [4, 10001, 0, 0]
          \<and> slice (pbuf (parsed e')) 0 4 = Some [CHR 0x2A, NUL, NUL, NUL])
   \<and> strtol ex_cfg ''42'' = (42, []) \<and> strtol ex_cfg ''017'' = (15, [])
   \<and> strtol ex_cfg ''42z'' = (42, ''z'')
   \<and> (\<exists>e'. tokenize ex_cfg (ex_split ''set 42z'') [0, 4] False = Some (False, None, TARG_NONE, e'))"
proof -
  define E where "E = ex_split ''set 0x2A''"
  define F where "F = ex_split ''set 42z''"
  define ent where "ent = Token 4 TARG_INT None None"
  have lv: "rd (token_levels E) (token_level E) = Some (Some ex_toks)"
    "rd (token_levels F) (token_level F) = Some (Some ex_toks)"
    unfolding E_def F_def by code_simp+
  have pre: "tokenize_loop ex_cfg False [] (walk_init (Some ex_toks)) E
      = Some (True, walk_init (Some ex_toks), E)"
    "tokenize_loop ex_cfg False [] (walk_init (Some ex_toks)) F
      = Some (True, walk_init (Some ex_toks), F)" by simp_all
  have idle: "\<not> finished (walk_init (Some ex_toks))" "arg_needed (walk_init (Some ex_toks)) = TARG_NONE"
    by (simp_all add: walk_init_def)
  have stack: "rd (token_stack (walk_init (Some ex_toks))) (cur_tsp (walk_init (Some ex_toks)))
      = Some (Some ex_toks)" by (simp add: walk_init_def rd_def)
  have w1: "cstr (buf E) 0 = Some ''set''" "cstr (buf F) 0 = Some ''set''"
    unfolding E_def F_def by code_simp+
  have m: "find_token ex_toks (token_dict E) ''set'' = 3" "find_token ex_toks (token_dict F) ''set'' = 3"
    "(-1::int) < 3" "rd ex_toks 3 = Some ent" "arg_type ent = TARG_INT"
    unfolding E_def F_def ent_def by code_simp+
  have w2: "cstr (buf E) 4 = Some ''0x2A''" "cstr (buf F) 4 = Some ''42z''"
    unfolding E_def F_def by code_simp+
  have st: "strtol ex_cfg ''0x2A'' = (42, [])" "strtol ex_cfg ''42z'' = (42, ''z'')"
    by code_simp+
  have ir: "int_repr ex_cfg 42 = [CHR 0x2A, NUL, NUL, NUL]" by code_simp
  have c0: "cur_tp (walk_init (Some ex_toks)) = 0" "cur_bufsize (walk_init (Some ex_toks)) = 0"
    by (simp_all add: walk_init_def)
  have room: "0 \<le> cur_tp (walk_init (Some ex_toks))"
    "cur_tp (walk_init (Some ex_toks)) + 3 < int (length (tokens (parsed E)))"
    "0 \<le> cur_bufsize (walk_init (Some ex_toks))"
    "cur_bufsize (walk_init (Some ex_toks)) + int (length (int_repr ex_cfg 42))
       \<le> int (length (pbuf (parsed E)))"
    "cur_tp (walk_init (Some ex_toks)) + 3 < int (length (tokens (parsed F)))"
    "cur_bufsize (walk_init (Some ex_toks)) + int (length (int_repr ex_cfg 42))
       \<le> int (length (pbuf (parsed F)))"
    unfolding c0 ir E_def F_def by code_simp+
  note A = tokenize_integer_argument[OF lv(1) pre(1) idle stack w1(1) m(1,3,4,5) w2(1) st(1) room(1,2,3,4),
      THEN conjunct2, rule_format, OF refl]
  note B = tokenize_integer_argument[OF lv(2) pre(2) idle stack w1(2) m(2,3,4,5) w2(2) st(2) room(1,5,3,6),
      THEN conjunct1, rule_format]
  have tg: "targ ex_cfg TARG_INT = 10001" "token ent = 4" unfolding ent_def by code_simp+
  from A have a: "\<exists>e'. tokenize ex_cfg E [0, 4] False = Some (True, None, TARG_NONE, e')
          \<and> slice (tokens (parsed e')) 0 4 = Some [4, 10001, 0, 0]
          \<and> slice (pbuf (parsed e')) 0 4 = Some [CHR 0x2A, NUL, NUL, NUL]"
    by (simp add: c0 ir tg)
  from B have b: "\<exists>e'. tokenize ex_cfg F [0, 4] False = Some (False, None, TARG_NONE, e')"
    by auto
  have st': "strtol ex_cfg ''42'' = (42, [])" "strtol ex_cfg ''017'' = (15, [])"
    by code_simp+
  from a b st st' show ?thesis unfolding E_def F_def by simp
qed

subsection \<open>The history ring below its capacity\<close>

lemma ring_bytes_append [simp]: "ring_bytes (as @ bs) = ring_bytes as @ ring_bytes bs"
  by (simp add: ring_bytes_def)

lemma ring_bytes_Nil [simp]: "ring_bytes [] = []"
  by (simp add: ring_bytes_def)

lemma ring_bytes_single [simp]: "ring_bytes [l] = l @ [NUL]"
  by (simp add: ring_bytes_def)

lemma length_ring_bytes: "length (ring_bytes es) = (\<Sum>l\<leftarrow>es. length l + 1)"
  by (induction es) (simp_all add: ring_bytes_def)

lemma cstr_line:
  "NUL \<notin> set l \<Longrightarrow> cstr (l @ NUL # r) 0 = Some l"
proof -
  assume "NUL \<notin> set l"
  then have "\<forall>x\<in>set l. x \<noteq> NUL" by auto
  then have "takeWhile (\<lambda>c. c \<noteq> NUL) (l @ NUL # r) = l" by (simp add: takeWhile_tail)
  then show ?thesis by (simp add: cstr_def)
qed

lemma history_add_linear:
  assumes lr: "linear_ring cf e es"
    and l: "l \<noteq> []" "NUL \<notin> set l" "length l < length (buf e)"
    and room: "length (ring_bytes es) + length l + 1 < length (hist_buf e)"
  shows "\<exists>e'. history_add cf (load_line e l) = Some e' \<and> linear_ring cf e' (es @ [l])
            \<and> length (hist_buf e') = length (hist_buf e) \<and> length (buf e') = length (buf e)"
proof -
  define M where "M = length (hist_buf e)"
  define T where "T = length (ring_bytes es)"
  define src where "src = l @ [NUL]"
  define e0 where "e0 = load_line e l"
  from lr have h: "TL_MAX_HISTORY_SIZE cf = int M" "T < M"
    "hist_buf e = ring_bytes es @ replicate (M - T) NUL" "hist_begin e = 0" "hist_end e = int T"
    by (simp_all add: linear_ring_def M_def T_def)
  have h0: "hist_buf e0 = hist_buf e" "hist_begin e0 = 0" "hist_end e0 = int T"
    "buf e0 = l @ NUL # drop (Suc (length l)) (buf e)"
    using h by (simp_all add: e0_def load_line_def)
  have cs: "cstr (buf e0) 0 = Some l" unfolding h0(4) by (rule cstr_line[OF l(2)])
  have sl: "slice (buf e0) 0 (int (length l) + 1) = Some src"
    unfolding h0(4) by (simp add: slice_def src_def nat_add_distrib)
  have ls: "length src = length l + 1" by (simp add: src_def)
  have lh: "length (hist_buf e) = M" by (simp add: M_def)
  have room': "T + length l + 1 < M" using room by (simp add: T_def M_def)
  define hb' where "hb' = ring_bytes es @ src @ replicate (M - T - length src) NUL"
  have "drop (T + length src) (hist_buf e) = replicate (M - T - length src) NUL"
    by (subst h(3)) (simp add: T_def)
  moreover have "take T (hist_buf e) = ring_bytes es"
    by (subst h(3)) (simp add: T_def)
  ultimately have bl: "blit (hist_buf e) (int T) src = Some hb'"
    using room' ls lh by (simp add: blit_def hb'_def)
  define e1 where "e1 = e0\<lparr>hist_buf := hb'\<rparr>"
  define e2 where "e2 = e1\<lparr>hist_end := int T + (int (length l) + 1)\<rparr>"
  have part1: "(if hist_begin e0 = hist_end e0 then do {
            src \<leftarrow> slice (buf e0) 0 (int (length l) + 1);
            hb \<leftarrow> blit (hist_buf e0) 0 src;
            Some (e0\<lparr>hist_buf := hb\<rparr>)
          } else if hist_begin e0 < hist_end e0 then
            (if TL_MAX_HISTORY_SIZE cf - hist_end e0 \<ge> int (length l) + 1 then do {
               src \<leftarrow> slice (buf e0) 0 (int (length l) + 1);
               hb \<leftarrow> blit (hist_buf e0) (hist_end e0) src;
               Some (e0\<lparr>hist_buf := hb\<rparr>)
             } else X)
          else Y) = Some e1" for X Y
  proof (cases "T = 0")
    case True
    with bl have "blit (hist_buf e0) 0 src = Some hb'" by (simp add: h0)
    with True sl show ?thesis by (simp add: h0(2,3) e1_def)
  next
    case False
    have "int (length l) + 1 \<le> int M - int T" using room' by linarith
    with False sl bl show ?thesis by (simp add: h0(1,2,3) h(1) e1_def)
  qed
  have "history_add cf e0 = Some e2"
    unfolding history_add_def
    apply (simp only: cs bind.bind_lunit Let_def)
    apply (subst part1)
    using room' h(1)
    apply (simp add: e2_def e1_def h0(2,3))
    done
  moreover have "length hb' = M" using room' ls by (simp add: hb'_def T_def)
  then have "linear_ring cf e2 (es @ [l])"
    using room' h(1) ls
    by (simp add: linear_ring_def e2_def e1_def h0(2,3) hb'_def src_def T_def[symmetric])
  moreover have "length (hist_buf e2) = M" using room' ls by (simp add: e2_def e1_def hb'_def T_def)
  moreover have "length (buf e2) = length (buf e)"
    using l(3) by (simp add: e2_def e1_def h0)
  ultimately show ?thesis unfolding e0_def M_def by blast
qed


lemma history_add_all_linear:
  "linear_ring cf e es \<Longrightarrow>
   \<forall>l\<in>set ls. l \<noteq> [] \<and> NUL \<notin> set l \<and> length l < length (buf e) \<Longrightarrow>
   length (ring_bytes (es @ ls)) < length (hist_buf e) \<Longrightarrow>
     \<exists>e'. history_add_all cf e ls = Some e' \<and> linear_ring cf e' (es @ ls)"
proof (induction ls arbitrary: e es)
  case Nil
  then show ?case by simp
next
  case (Cons l ls)
  have room: "length (ring_bytes es) + length l + 1 < length (hist_buf e)"
  proof -
    have "length (ring_bytes es) + length l + 1 \<le> length (ring_bytes (es @ l # ls))"
      by (simp add: length_ring_bytes)
    with Cons.prems(3) show ?thesis by linarith
  qed
  from Cons.prems(2) have l: "l \<noteq> []" "NUL \<notin> set l" "length l < length (buf e)" by auto
  from history_add_linear[OF Cons.prems(1) l room] obtain e1 where
    e1: "history_add cf (load_line e l) = Some e1" "linear_ring cf e1 (es @ [l])"
        "length (hist_buf e1) = length (hist_buf e)" "length (buf e1) = length (buf e)"
    by blast
  have "\<exists>e'. history_add_all cf e1 ls = Some e' \<and> linear_ring cf e' ((es @ [l]) @ ls)"
    by (rule Cons.IH[OF e1(2)]) (use Cons.prems e1(3,4) in auto)
  with e1(1) show ?case by simp
qed

lemma previous_loop_back:
  "0 \<le> z \<Longrightarrow> z \<le> entry \<Longrightarrow> entry < int (length hb) \<Longrightarrow> hb ! nat z = NUL \<Longrightarrow>
   (\<forall>j. z < j \<and> j \<le> entry \<longrightarrow> hb ! nat j \<noteq> NUL) \<Longrightarrow>
     history_previous_loop cf hb entry prev = Some (if z = entry then prev else z + 1)"
proof (induction "nat (entry - z)" arbitrary: entry prev)
  case 0
  then have "entry = z" by simp
  with 0 show ?case by (subst history_previous_loop.simps) (simp add: rd_def)
next
  case (Suc n)
  then have lt: "z < entry" by linarith
  with Suc.prems have nz: "hb ! nat entry \<noteq> NUL" by simp
  have dec: "hist_dec cf entry = entry - 1" using lt Suc.prems(1) by (simp add: hist_dec_def)
  have "history_previous_loop cf hb (entry - 1) entry
        = Some (if z = entry - 1 then entry else z + 1)"
    by (rule Suc.hyps(1)) (use Suc.hyps(2) Suc.prems lt in auto)
  then have "history_previous_loop cf hb (entry - 1) entry = Some (z + 1)" by auto
  with nz dec lt Suc.prems show ?case
    by (subst history_previous_loop.simps) (simp add: rd_def)
qed

lemma previous_loop_wrap:
  "0 \<le> entry \<Longrightarrow> entry < int (length hb) \<Longrightarrow> TL_MAX_HISTORY_SIZE cf = int (length hb) \<Longrightarrow>
   hb ! (length hb - 1) = NUL \<Longrightarrow> (\<forall>j. 0 \<le> j \<and> j \<le> entry \<longrightarrow> hb ! nat j \<noteq> NUL) \<Longrightarrow>
     history_previous_loop cf hb entry prev = Some 0"
proof (induction "nat entry" arbitrary: entry prev)
  case 0
  then have e0: "entry = 0" by simp
  have nz: "hb ! 0 \<noteq> NUL" using 0(6)[rule_format, of 0] e0 by simp
  have dec: "hist_dec cf 0 = int (length hb) - 1" using 0 by (simp add: hist_dec_def)
  have l: "0 < length hb" using 0 by simp
  have n: "nat (int (length hb) - 1) = length hb - 1" by simp
  have "history_previous_loop cf hb (int (length hb) - 1) 0 = Some 0"
    using 0(5) l by (subst history_previous_loop.simps) (simp add: rd_def n)
  with nz dec e0 l show ?case
    by (subst history_previous_loop.simps) (simp add: rd_def)
next
  case (Suc n)
  then have lt: "0 < entry" by linarith
  have nz: "hb ! nat entry \<noteq> NUL" using Suc.prems(5) Suc.prems(1) by simp
  have dec: "hist_dec cf entry = entry - 1" using lt by (simp add: hist_dec_def)
  have "history_previous_loop cf hb (entry - 1) entry = Some 0"
    by (rule Suc.hyps(1)) (use Suc.hyps(2) Suc.prems lt in auto)
  with nz dec lt Suc.prems show ?case
    by (subst history_previous_loop.simps) (simp add: rd_def)
qed


lemma ring_bytes_last:
  "as \<noteq> [] \<Longrightarrow> ring_bytes as \<noteq> [] \<and> last (ring_bytes as) = NUL"
  by (induction as rule: rev_induct) simp_all

lemma linear_ring_split:
  assumes "linear_ring cf e (as @ l # cs)"
  shows "\<exists>Y. hist_buf e = ring_bytes as @ l @ NUL # Y
            \<and> (length (ring_bytes as) + length l + 1 < length (hist_buf e))
            \<and> hist_buf e ! (length (hist_buf e) - 1) = NUL"
proof -
  define M where "M = length (hist_buf e)"
  define B where "B = ring_bytes (as @ l # cs)"
  from assms have h: "length B < M" "hist_buf e = B @ replicate (M - length B) NUL"
    by (simp_all add: linear_ring_def M_def B_def)
  have B: "B = ring_bytes as @ l @ NUL # ring_bytes cs"
    by (simp add: B_def ring_bytes_def)
  have 1: "hist_buf e = ring_bytes as @ l @ NUL # (ring_bytes cs @ replicate (M - length B) NUL)"
    by (subst h(2)) (simp add: B)
  have 2: "length (ring_bytes as) + length l + 1 < M"
    using h(1) by (simp add: B)
  have "\<not> M - 1 < length B" using h(1) by linarith
  then have "(B @ replicate (M - length B) NUL) ! (M - 1) = replicate (M - length B) NUL ! (M - 1 - length B)"
    by (simp add: nth_append)
  also have "\<dots> = NUL" using h(1) by simp
  finally have 3: "hist_buf e ! (M - 1) = NUL" using h(2) by simp
  from 1 2 3 show ?thesis unfolding M_def by blast
qed

lemma previous_in_linear:
  assumes lr: "linear_ring cf e (as @ l # cs)" and l: "l \<noteq> []" "NUL \<notin> set l"
  shows "history_previous cf e (int (length (ring_bytes (as @ [l]))))
       = Some (int (length (ring_bytes as)))"
proof -
  define hb where "hb = hist_buf e"
  define A where "A = length (ring_bytes as)"
  define n where "n = length l"
  from linear_ring_split[OF lr] obtain Y where
    Y: "hb = ring_bytes as @ l @ NUL # Y" "A + n + 1 < length hb" "hb ! (length hb - 1) = NUL"
    by (auto simp: hb_def A_def n_def)
  from lr have h: "TL_MAX_HISTORY_SIZE cf = int (length hb)" "hist_begin e = 0"
    by (simp_all add: linear_ring_def hb_def)
  have n: "0 < n" using l by (simp add: n_def)
  have nz: "hb ! nat j \<noteq> NUL" if "int A \<le> j" "j < int A + int n" for j
  proof -
    define k where "k = nat j - A"
    have k: "nat j = A + k" "k < n" using that by (auto simp: k_def)
    have "hb ! (A + k) = l ! k"
      unfolding Y(1) using k(2) by (simp add: nth_append A_def n_def)
    moreover have "l ! k \<in> set l" using k(2) by (simp add: n_def)
    ultimately show ?thesis using l(2) k(1) by auto
  qed
  have ent: "int (length (ring_bytes (as @ [l]))) = int A + int n + 1"
    by (simp add: A_def n_def)
  have d1: "hist_dec cf (int A + int n + 1) = int A + int n" by (simp add: hist_dec_def)
  have d2: "hist_dec cf (int A + int n) = int A + int n - 1"
    using n by (simp add: hist_dec_def)
  have loop: "history_previous_loop cf hb (int A + int n - 1) (int A + int n) = Some (int A)"
  proof (cases "as = []")
    case True
    then have A0: "A = 0" by (simp add: A_def)
    have "history_previous_loop cf hb (int n - 1) (int n) = Some 0"
    proof (rule previous_loop_wrap)
      show "\<forall>j. 0 \<le> j \<and> j \<le> int n - 1 \<longrightarrow> hb ! nat j \<noteq> NUL"
        using nz A0 by auto
    qed (use n Y(2,3) h(1) in auto)
    with A0 show ?thesis by simp
  next
    case False
    from ring_bytes_last[OF False] have rb: "ring_bytes as \<noteq> []" "last (ring_bytes as) = NUL"
      by auto
    then have Apos: "0 < A" by (simp add: A_def)
    have "hb ! (A - 1) = ring_bytes as ! (A - 1)"
      unfolding Y(1) using Apos by (simp add: nth_append A_def)
    also have "\<dots> = NUL" using rb by (simp add: last_conv_nth A_def)
    finally have z: "hb ! nat (int A - 1) = NUL" using Apos by (simp add: nat_diff_distrib)
    have "history_previous_loop cf hb (int A + int n - 1) (int A + int n)
        = Some (if int A - 1 = int A + int n - 1 then int A + int n else (int A - 1) + 1)"
    proof (rule previous_loop_back)
      show "\<forall>j. int A - 1 < j \<and> j \<le> int A + int n - 1 \<longrightarrow> hb ! nat j \<noteq> NUL"
        using nz by auto
    qed (use Apos n Y(2) z in auto)
    with n show ?thesis by simp
  qed
  show ?thesis
    unfolding history_previous_def ent
    using h(2) d1 d2 loop by (simp add: hb_def Let_def A_def)
qed

lemma hist_entry_linear:
  assumes lr: "linear_ring cf e (as @ l # cs)" and l: "NUL \<notin> set l"
  shows "hist_entry (hist_buf e) (int (length (ring_bytes as))) = l"
proof -
  from linear_ring_split[OF lr] obtain Y where
    Y: "hist_buf e = ring_bytes as @ l @ NUL # Y" by blast
  have d: "drop (length (ring_bytes as)) (hist_buf e) = l @ NUL # Y"
    by (subst Y) simp
  have "\<forall>x\<in>set l. x \<noteq> NUL" using l by auto
  then have "takeWhile (\<lambda>c. c \<noteq> NUL) (l @ NUL # Y) = l" by (simp add: takeWhile_tail)
  then show ?thesis by (simp add: hist_entry_def d)
qed

lemma walk_from_linear:
  "linear_ring cf e (as @ l # cs) \<Longrightarrow> \<forall>x\<in>set (as @ [l]). x \<noteq> [] \<and> NUL \<notin> set x \<Longrightarrow>
     history_walk_from cf e (int (length (ring_bytes as))) = Some (l # rev as)"
proof (induction as arbitrary: l cs rule: rev_induct)
  case Nil
  then have b: "hist_begin e = 0" by (simp add: linear_ring_def)
  have p: "history_previous cf e 0 = Some (-1)" using b by (simp add: history_previous_def)
  have w: "history_walk_from cf e (-1) = Some []" by (subst history_walk_from.simps) simp
  have "hist_entry (hist_buf e) 0 = l" using hist_entry_linear[of cf e "[]" l cs] Nil by simp
  with p w show ?case by (subst history_walk_from.simps) simp
next
  case (snoc x xs)
  have lr: "linear_ring cf e (xs @ x # (l # cs))" using snoc.prems(1) by simp
  have x: "x \<noteq> []" "NUL \<notin> set x" "NUL \<notin> set l" using snoc.prems(2) by auto
  have p: "history_previous cf e (int (length (ring_bytes (xs @ [x]))))
      = Some (int (length (ring_bytes xs)))"
    by (rule previous_in_linear[OF lr x(1,2)])
  have w: "history_walk_from cf e (int (length (ring_bytes xs))) = Some (x # rev xs)"
    by (rule snoc.IH[OF lr]) (use snoc.prems(2) in auto)
  have h: "hist_entry (hist_buf e) (int (length (ring_bytes (xs @ [x])))) = l"
    by (rule hist_entry_linear[OF snoc.prems(1) x(3)])
  have ne: "int (length (ring_bytes (xs @ [x]))) \<noteq> -1" by simp
  show ?case
    by (subst history_walk_from.simps) (simp only: ne if_False p w h bind.bind_lunit rev_append rev.simps append.simps)
qed

lemma walk_linear:
  assumes "linear_ring cf e es" "\<forall>x\<in>set es. x \<noteq> [] \<and> NUL \<notin> set x"
  shows "history_walk cf e = Some (rev es)"
proof (cases es rule: rev_cases)
  case Nil
  with assms have "hist_begin e = 0" "hist_end e = 0" by (simp_all add: linear_ring_def)
  then have "history_previous cf e (hist_end e) = Some (-1)" by (simp add: history_previous_def)
  moreover have "history_walk_from cf e (-1) = Some []" by (subst history_walk_from.simps) simp
  ultimately show ?thesis using Nil by (simp add: history_walk_def)
next
  case (snoc as l)
  have lr: "linear_ring cf e (as @ l # [])" using assms(1) snoc by simp
  have l: "l \<noteq> []" "NUL \<notin> set l" using assms(2) snoc by auto
  have en: "hist_end e = int (length (ring_bytes (as @ [l])))"
    using assms(1) snoc by (simp add: linear_ring_def)
  have p: "history_previous cf e (hist_end e) = Some (int (length (ring_bytes as)))"
    unfolding en by (rule previous_in_linear[OF lr l])
  have w: "history_walk_from cf e (int (length (ring_bytes as))) = Some (l # rev as)"
    by (rule walk_from_linear[OF lr]) (use assms(2) snoc in auto)
  show ?thesis using p w snoc by (simp add: history_walk_def)
qed

text \<open>
  Below its capacity the ring keeps every line.  Starting from the empty history, let \<^verbatim>\<open>history_add\<close> record
  the lines \<open>ls\<close>, each non-empty, free of NUL and shorter than the line buffer, whose sizes
  with their terminators add up to less than the capacity of the ring.  Then every call
  returns, and the walk from \<^verbatim>\<open>hist_end\<close> through \<^verbatim>\<open>history_previous\<close> yields exactly these
  lines, newest first.
\<close>

theorem history_walk_below_capacity:
  assumes init: "hist_buf e = replicate M NUL" "hist_begin e = 0" "hist_end e = 0"
      "TL_MAX_HISTORY_SIZE cf = int M"
    and lines: "\<forall>l\<in>set ls. l \<noteq> [] \<and> NUL \<notin> set l \<and> length l < length (buf e)"
    and total: "(\<Sum>l\<leftarrow>ls. length l + 1) < M"
  shows "\<exists>e'. history_add_all cf e ls = Some e' \<and> history_walk cf e' = Some (rev ls)"
proof -
  have lr: "linear_ring cf e []" using init total by (simp add: linear_ring_def)
  have "length (ring_bytes ([] @ ls)) < length (hist_buf e)"
    using total init(1) by (simp add: length_ring_bytes)
  from history_add_all_linear[OF lr lines this] obtain e' where
    e': "history_add_all cf e ls = Some e'" "linear_ring cf e' ls" by auto
  have "history_walk cf e' = Some (rev ls)"
    by (rule walk_linear[OF e'(2)]) (use lines in auto)
  with e'(1) show ?thesis by blast
qed


theorem history_walk_below_capacity_witness:
  "(\<Sum>l\<leftarrow>ex_lines. length l + 1) = 21
   \<and> (\<exists>e'. history_add_all ex_cfg ex_engine ex_lines = Some e'
          \<and> history_walk ex_cfg e' = Some [''cccccccccc'', ''bbbb'', ''aaaa''])"
proof -
  have i: "hist_buf ex_engine = replicate 32 NUL" "hist_begin ex_engine = 0"
    "hist_end ex_engine = 0" "TL_MAX_HISTORY_SIZE ex_cfg = int 32"
    by code_simp+
  have lb: "length (buf ex_engine) = 16" by code_simp
  have l: "\<forall>l\<in>set ex_lines. l \<noteq> [] \<and> NUL \<notin> set l \<and> length l < length (buf ex_engine)"
    unfolding lb by (simp add: ex_lines_def)
  have t: "(\<Sum>l\<leftarrow>ex_lines. length l + 1) = 21" by (simp add: ex_lines_def)
  have t': "(\<Sum>l\<leftarrow>ex_lines. length l + 1) < 32" unfolding t by simp
  have r: "rev ex_lines = [''cccccccccc'', ''bbbb'', ''aaaa'']" by (simp add: ex_lines_def)
  from history_walk_below_capacity[OF i l t'] t r show ?thesis by simp
qed

text \<open>
  When the sizes add up to the capacity exactly, the oldest line goes at once: the two
  lines of 15 bytes take 32 bytes with their terminators, the ring has 32 bytes, and the
  walk yields the second line only.  After the write \<^verbatim>\<open>hist_end\<close> has come round to
  \<^verbatim>\<open>hist_begin\<close>, and \<^verbatim>\<open>history_add\<close> evicts the oldest entry to tell the full ring from the
  empty one.
\<close>

theorem history_walk_at_capacity:
  "(\<Sum>l\<leftarrow>ex_lines_full. length l + 1) = 32 \<and> TL_MAX_HISTORY_SIZE ex_cfg = 32
   \<and> Option.bind (history_add_all ex_cfg ex_engine ex_lines_full) (history_walk ex_cfg)
       = Some [''bbbbbbbbbbbbbbb'']"
  by code_simp

subsection \<open>The history ring past its capacity\<close>

text \<open>
  With small lines the eviction works: of nine lines of 4 bytes, recorded in the ring of
  32 bytes, the walk yields the seven newest.
\<close>

theorem history_walk_small_lines:
  "Option.bind (history_add_all ex_cfg ex_engine ex_lines_small) (history_walk ex_cfg)
     = Some [''iii'', ''hhh'', ''ggg'', ''fff'', ''eee'', ''ddd'', ''ccc'']"
  by code_simp

text \<open>
  Claim C8 at three lines of 15 bytes, recorded one after the other in the ring of 32
  bytes, which holds one such line and not two.  After the third, the walk from \<^verbatim>\<open>hist_end\<close>
  yields the third line and then fifteen empty entries, where the claim has the most recent
  lines that fit and nothing else.  To make room \<^verbatim>\<open>history_add\<close> calls \<^verbatim>\<open>history_delete\<close> at
  \<^verbatim>\<open>hist_begin\<close> = 16, which clears the second line and leaves the ring empty; its last loop,
  which is to skip the zero bytes up to the next entry, runs from offset 31 round to offset
  16 and stops there, because of its test \<^verbatim>\<open>i < entry\<close>, and not at the next entry, which is
  about to be written at offset 0.  The third line takes the offsets 0 to 15, \<^verbatim>\<open>hist_end\<close>
  becomes 16 and meets \<^verbatim>\<open>hist_begin\<close>; \<^verbatim>\<open>history_add\<close> takes this for a full ring and deletes
  the empty string at offset 16, which leaves \<^verbatim>\<open>hist_begin\<close> = 17.  The walk then finds an
  empty entry at each offset from 31 down to 17.
\<close>

theorem history_walk_past_capacity:
  "map_option (\<lambda>e. (hist_begin e, hist_end e))
       (history_add_all ex_cfg ex_engine ex_lines_over) = Some (17, 16)
   \<and> Option.bind (history_add_all ex_cfg ex_engine ex_lines_over) (history_walk ex_cfg)
       = Some (''ccccccccccccccc'' # replicate 15 [])"
  by code_simp

subsection \<open>Line submission\<close>

lemma if_returns_Some [simp]: "if_returns (Some x) Q = Q x"
  by (simp add: if_returns_def)

lemma if_returns_None [simp]: "if_returns None Q"
  by (simp add: if_returns_def)














lemma print_host [simp]:
  "calls (print s e) = calls e" "prompt (print s e) = prompt e"
  "callback (print s e) = callback e"
  by (simp_all add: print_def)










lemma set_last_host [simp]:
  "calls (set_last e t) = calls e" "prompt (set_last e t) = prompt e"
  "callback (set_last e t) = callback e"
  by (simp_all add: set_last_def)












lemma returns_Some [simp]: "returns (Some x) Q = Q x"
  by (simp add: returns_def)

lemma returns_None [simp]: "\<not> returns None Q"
  by (simp add: returns_def)


lemma returnsI: "m = Some x \<Longrightarrow> Q x \<Longrightarrow> returns m Q"
  by simp

lemma returns_weaken: "returns m Q \<Longrightarrow> (\<And>x. Q x \<Longrightarrow> R x) \<Longrightarrow> returns m R"
  by (cases m) simp_all




lemma unsplit_loop_length [simp]: "length (unsplit_loop q cs) = length cs"
  by (induction q cs rule: unsplit_loop.induct) simp_all



lemma keeps_refl [simp]: "keeps e e"
  by (simp add: keeps_def)


lemma keeps_print [simp]: "keeps e (print s e)"
  by (simp add: keeps_def print_def)













lemma linear_ring_print [simp]: "linear_ring cf (print s e) es = linear_ring cf e es"
  by (simp add: linear_ring_def print_def)

lemma linear_ring_keeps: "keeps e e' \<Longrightarrow> linear_ring cf e es \<Longrightarrow> linear_ring cf e' es"
  by (simp add: linear_ring_def keeps_def)








text \<open>A line that parses reaches the callback: after \<^verbatim>\<open>set 5\<close> and CR the callback has been
  called once, with the tokens of \<^verbatim>\<open>set\<close>, the integer tag and the offset 0.\<close>

theorem line_submission_accepted:
  "map_option (\<lambda>(r, e'). (r, buf_len e', map (take 4 \<circ> tokens) (calls e')))
       (tl_input ex_cfg (ex_after ''set 5'') (CHR 0x0D))
     = Some (True, 0, [[4, 10001, 0, 0]])"
  by code_simp

end
